theory Spec2Isabelle
  imports Complex_Main "HOL-Library.Sublist"
begin

section \<open>Data model\<close>

text \<open>
  The routing engine of the campus map (the pathfinding module).  A \<open>Room\<close> is the
  interface of the source; the field names carry a \<open>room_\<close> prefix because \<open>id\<close>,
  \<open>x\<close>, \<open>y\<close> and \<open>type\<close> are not usable as HOL constants.  Coordinates are JavaScript
  numbers in the source; they are modelled as real numbers, so arithmetic is exact.
  The only non-finite numbers the engine itself produces are the \<open>Infinity\<close> of the
  distance table and the result of a division by zero in the obstruction test; both
  are modelled explicitly.
\<close>

datatype RoomType = TRoom | TWaypoint | TEntrance | TStairs

record Room =
  room_id :: string
  room_name :: string
  room_x :: real
  room_y :: real
  connections :: "string list"
  room_type :: RoomType

section \<open>Geometry utilities\<close>

definition calculateDistance :: "Room \<Rightarrow> Room \<Rightarrow> real" where
  "calculateDistance room1 room2 =
     sqrt ((room_x room1 - room_x room2)\<^sup>2 + (room_y room1 - room_y room2)\<^sup>2)"

definition calculateManhattanDistance :: "Room \<Rightarrow> Room \<Rightarrow> real" where
  "calculateManhattanDistance room1 room2 =
     \<bar>room_x room1 - room_x room2\<bar> + \<bar>room_y room1 - room_y room2\<bar>"

text \<open>
  \<open>linePassesThroughRoom\<close>: the source divides by \<open>Math.sqrt(A * A + B * B)\<close>.  When the
  two points coincide the divisor is 0 and JavaScript yields \<open>NaN\<close> or \<open>Infinity\<close>, for
  which \<open>distance < roomRadius\<close> is false; HOL's \<open>x / 0 = 0\<close> would answer true, so the
  case is written out.
\<close>

definition linePassesThroughRoom ::
  "real \<Rightarrow> real \<Rightarrow> real \<Rightarrow> real \<Rightarrow> real \<Rightarrow> real \<Rightarrow> real \<Rightarrow> bool" where
  "linePassesThroughRoom x1 y1 x2 y2 roomX roomY roomRadius =
     (let A = x1 - x2;
          B = y1 - y2;
          C = x1 * y2 - y1 * x2
      in if sqrt (A * A + B * B) = 0 then False
         else \<bar>A * roomX + B * roomY + C\<bar> / sqrt (A * A + B * B) < roomRadius)"

text \<open>The default value of the parameter \<open>roomRadius\<close>.\<close>

definition defaultRoomRadius :: real where
  "defaultRoomRadius = 20"

definition isPathObstructed :: "Room \<Rightarrow> Room \<Rightarrow> Room list \<Rightarrow> bool" where
  "isPathObstructed start endR allRooms =
     list_ex (\<lambda>room.
        \<not> (room_id room = room_id start \<or> room_id room = room_id endR
            \<or> room_type room = TWaypoint)
        \<and> linePassesThroughRoom (room_x start) (room_y start) (room_x endR) (room_y endR)
              (room_x room) (room_y room) defaultRoomRadius) allRooms"

text \<open>
  What the documentation of the obstruction test asks for: the perpendicular distance
  from a point to the infinite line through two distinct points.
\<close>

definition perpendicularDistance ::
  "real \<Rightarrow> real \<Rightarrow> real \<Rightarrow> real \<Rightarrow> real \<Rightarrow> real \<Rightarrow> real" where
  "perpendicularDistance x1 y1 x2 y2 px py =
     \<bar>(x2 - x1) * (y1 - py) - (x1 - px) * (y2 - y1)\<bar> / sqrt ((x2 - x1)\<^sup>2 + (y2 - y1)\<^sup>2)"

text \<open>
  Obstruction as the documentation defines it: some node other than the two endpoints,
  not a waypoint, lies at a perpendicular distance below the radius from the line
  through the endpoints.
\<close>

definition isObstructedSpec :: "Room \<Rightarrow> Room \<Rightarrow> Room list \<Rightarrow> bool" where
  "isObstructedSpec a b allNodes =
     list_ex (\<lambda>n. room_id n \<noteq> room_id a \<and> room_id n \<noteq> room_id b
                 \<and> room_type n \<noteq> TWaypoint
                 \<and> perpendicularDistance (room_x a) (room_y a) (room_x b) (room_y b)
                       (room_x n) (room_y n) < defaultRoomRadius) allNodes"

section \<open>Waypoint detour selector\<close>

definition cornerNode :: "Room \<Rightarrow> Room \<Rightarrow> Room" where
  "cornerNode start endR =
     \<lparr> room_id = ''corner-'' @ room_id start @ ''-'' @ room_id endR,
       room_name = ''Corner'',
       room_x = room_x endR,
       room_y = room_y start,
       connections = [],
       room_type = TWaypoint \<rparr>"

definition viaDistance :: "Room \<Rightarrow> Room \<Rightarrow> Room \<Rightarrow> real" where
  "viaDistance start endR w =
     calculateManhattanDistance start w + calculateManhattanDistance w endR"

text \<open>
  \<open>Array.prototype.sort\<close> with the comparator \<open>distanceA - distanceB\<close> is a stable sort by
  the key; \<open>sort_key\<close> is the stable insertion sort of the list library.
\<close>

definition findRouteThroughWaypoints :: "Room \<Rightarrow> Room \<Rightarrow> Room list \<Rightarrow> Room list \<Rightarrow> Room list" where
  "findRouteThroughWaypoints start endR waypoints allRooms =
     (let potentialWaypoints =
            filter (\<lambda>w. viaDistance start endR w
                          < calculateManhattanDistance start endR * (3 / 2)) waypoints;
          sorted = sort_key (viaDistance start endR) potentialWaypoints
      in case find (\<lambda>waypoint. \<not> isPathObstructed start waypoint allRooms
                              \<and> \<not> isPathObstructed waypoint endR allRooms) sorted of
           Some waypoint \<Rightarrow> [start, waypoint, endR]
         | None \<Rightarrow> [start, cornerNode start endR, endR])"

definition nearestStep :: "Room \<Rightarrow> Room \<Rightarrow> Room \<times> real \<Rightarrow> Room \<times> real" where
  "nearestStep room w acc =
     (let distance = calculateDistance room w
      in if distance < snd acc then (w, distance) else acc)"

definition findNearestWaypoint :: "Room \<Rightarrow> Room list \<Rightarrow> Room option" where
  "findNearestWaypoint room waypoints =
     (case waypoints of
        [] \<Rightarrow> None
      | w0 # rest \<Rightarrow> Some (fst (fold (nearestStep room) rest (w0, calculateDistance room w0))))"

section \<open>Fallback path synthesizer\<close>

definition virtualH :: "Room \<Rightarrow> Room \<Rightarrow> Room" where
  "virtualH start endR =
     \<lparr> room_id = ''virtual-h-'' @ room_id start @ ''-'' @ room_id endR,
       room_name = ''Corridor'',
       room_x = room_x endR,
       room_y = room_y start,
       connections = [],
       room_type = TWaypoint \<rparr>"

definition virtualV :: "Room \<Rightarrow> Room \<Rightarrow> Room \<Rightarrow> Room" where
  "virtualV start endR lastPoint =
     \<lparr> room_id = ''virtual-v-'' @ room_id start @ ''-'' @ room_id endR,
       room_name = ''Corridor'',
       room_x = room_x lastPoint,
       room_y = room_y endR,
       connections = [],
       room_type = TWaypoint \<rparr>"

text \<open>\<open>allRooms.filter(r => r.type === "waypoint")\<close>.\<close>

definition waypointsOf :: "Room list \<Rightarrow> Room list" where
  "waypointsOf allRooms = filter (\<lambda>r. room_type r = TWaypoint) allRooms"

text \<open>\<open>waypoints.find(w => |w.x - X| < 15 && |w.y - Y| < 15)\<close>, used by both legs.\<close>

definition findWaypointNear :: "Room list \<Rightarrow> real \<Rightarrow> real \<Rightarrow> Room option" where
  "findWaypointNear waypoints tx ty =
     find (\<lambda>w. \<bar>room_x w - tx\<bar> < 15 \<and> \<bar>room_y w - ty\<bar> < 15) waypoints"

text \<open>The two \<open>allRooms.some(...)\<close> corridor tests.\<close>

definition horizontalObstructed :: "Room \<Rightarrow> Room \<Rightarrow> Room list \<Rightarrow> bool" where
  "horizontalObstructed start endR allRooms =
     list_ex (\<lambda>room.
        if room_id room = room_id start \<or> room_id room = room_id endR
           \<or> room_type room = TWaypoint then False
        else room_x room > min (room_x start) (room_x endR)
           \<and> room_x room < max (room_x start) (room_x endR)
           \<and> \<bar>room_y room - room_y start\<bar> < 20) allRooms"

definition verticalObstructed :: "Room \<Rightarrow> Room \<Rightarrow> Room \<Rightarrow> Room list \<Rightarrow> bool" where
  "verticalObstructed start endR lastPoint allRooms =
     list_ex (\<lambda>room.
        if room_id room = room_id start \<or> room_id room = room_id endR
           \<or> room_type room = TWaypoint then False
        else room_y room > min (room_y lastPoint) (room_y endR)
           \<and> room_y room < max (room_y lastPoint) (room_y endR)
           \<and> \<bar>room_x room - room_x lastPoint\<bar> < 20) allRooms"

text \<open>
  \<open>createGridBasedPath\<close> in its three stages: the path after the horizontal block, the
  path after the vertical block, and the final append of the destination.  The path
  always starts with \<open>start\<close>, so \<open>path[path.length - 1]\<close> is \<open>last path\<close>.
\<close>

definition horizontalLeg :: "Room \<Rightarrow> Room \<Rightarrow> Room list \<Rightarrow> Room list" where
  "horizontalLeg start endR allRooms =
     (let waypoints = waypointsOf allRooms;
          path = [start]
      in if \<bar>room_x endR - room_x start\<bar> > 20 then
           (case findWaypointNear waypoints (room_x endR) (room_y start) of
              None \<Rightarrow>
                if horizontalObstructed start endR allRooms then
                  (case findNearestWaypoint start waypoints of
                     Some closestWaypoint \<Rightarrow> path @ [closestWaypoint]
                   | None \<Rightarrow> path)
                else path @ [virtualH start endR]
            | Some horizontalWaypoint \<Rightarrow> path @ [horizontalWaypoint])
         else path)"

definition verticalLeg :: "Room \<Rightarrow> Room \<Rightarrow> Room list \<Rightarrow> Room list \<Rightarrow> Room list" where
  "verticalLeg start endR allRooms path =
     (let waypoints = waypointsOf allRooms;
          lastPoint = last path
      in if \<bar>room_y endR - room_y lastPoint\<bar> > 20 then
           (case findWaypointNear waypoints (room_x lastPoint) (room_y endR) of
              None \<Rightarrow>
                if verticalObstructed start endR lastPoint allRooms then
                  path @ tl (findRouteThroughWaypoints lastPoint endR waypoints allRooms)
                else path @ [virtualV start endR lastPoint]
            | Some verticalWaypoint \<Rightarrow> path @ [verticalWaypoint])
         else path)"

definition createGridBasedPath :: "Room \<Rightarrow> Room \<Rightarrow> Room list \<Rightarrow> Room list" where
  "createGridBasedPath start endR allRooms =
     (let path = verticalLeg start endR allRooms (horizontalLeg start endR allRooms)
      in if room_id (last path) \<noteq> room_id endR then path @ [endR] else path)"

section \<open>Graph search\<close>

text \<open>
  An entry of the \<open>distances\<close> table is a finite number or \<open>Infinity\<close>.  Reading a key
  that was never written yields \<open>undefined\<close> in the source; the tables are maps, and
  every comparison with a missing entry is false, as it is with \<open>undefined\<close>.
\<close>

datatype dist = Finite real | Infinity

fun dist_less :: "dist \<Rightarrow> dist \<Rightarrow> bool" where
  "dist_less (Finite a) (Finite b) = (a < b)"
| "dist_less (Finite a) Infinity = True"
| "dist_less Infinity d = False"

fun dist_add :: "dist \<Rightarrow> real \<Rightarrow> dist" where
  "dist_add (Finite a) w = Finite (a + w)"
| "dist_add Infinity w = Infinity"

type_synonym distances = "string \<rightharpoonup> dist"

text \<open>
  Both tables are plain objects (\<open>{}\<close>) in the source, so the key \<open>__proto__\<close> is not an
  ordinary key: it is the accessor inherited from \<open>Object.prototype\<close>.  Assigning a number
  to \<open>distances['__proto__']\<close> stores nothing, and reading it yields the prototype
  object, which compares as \<open>NaN\<close>: no number is ever read under that key.  Every other
  key, also the name of a method of \<open>Object.prototype\<close>, is an ordinary own property once
  it is written, and the search reads no key before it is written.
\<close>

definition readDistance :: "distances \<Rightarrow> string \<Rightarrow> dist option" where
  "readDistance distances i = (if i = ''__proto__'' then None else distances i)"

definition writeDistance :: "distances \<Rightarrow> string \<Rightarrow> dist \<Rightarrow> distances" where
  "writeDistance distances i v = (if i = ''__proto__'' then distances else distances(i \<mapsto> v))"

text \<open>
  \<open>previous[id]\<close> is a string, \<open>null\<close> or (for a missing key) \<open>undefined\<close>.  The table is
  read in one place only, the condition \<open>while (currentId)\<close>, where \<open>null\<close> and
  \<open>undefined\<close> act alike; both are \<open>None\<close>.  The initial \<open>previous['__proto__'] = null\<close>
  removes the prototype of the table and stores nothing, so that key reads \<open>undefined\<close>;
  a string is written under a key only after a number was read from \<open>distances\<close> under
  the same key, which never happens for \<open>__proto__\<close>.
\<close>

type_synonym previous = "string \<rightharpoonup> string"

text \<open>
  \<open>unvisited\<close> is a JavaScript \<open>Set\<close>, iterated in insertion order: a list without
  duplicates.
\<close>

definition set_add :: "string \<Rightarrow> string list \<Rightarrow> string list" where
  "set_add i s = (if i \<in> set s then s else s @ [i])"

definition set_delete :: "string \<Rightarrow> string list \<Rightarrow> string list" where
  "set_delete i s = removeAll i s"

definition findRoom :: "Room list \<Rightarrow> string \<Rightarrow> Room option" where
  "findRoom rooms i = find (\<lambda>r. room_id r = i) rooms"

definition ensureRoom :: "Room \<Rightarrow> Room list \<Rightarrow> Room list" where
  "ensureRoom r rooms = (if \<not> list_ex (\<lambda>q. room_id q = room_id r) rooms then rooms @ [r] else rooms)"

text \<open>The working copy \<open>rooms\<close> of the search: \<open>allRooms\<close> with start and end pushed if absent.\<close>

definition searchRooms :: "Room \<Rightarrow> Room \<Rightarrow> Room list \<Rightarrow> Room list" where
  "searchRooms start endR allRooms = ensureRoom endR (ensureRoom start allRooms)"

definition initStep ::
  "string \<Rightarrow> Room \<Rightarrow> distances \<times> previous \<times> string list \<Rightarrow> distances \<times> previous \<times> string list" where
  "initStep startId room s =
     (case s of (distances, previous, unvisited) \<Rightarrow>
        (writeDistance distances (room_id room)
           (if room_id room = startId then Finite 0 else Infinity),
         previous(room_id room := None),
         set_add (room_id room) unvisited))"

definition initSearch :: "string \<Rightarrow> Room list \<Rightarrow> distances \<times> previous \<times> string list" where
  "initSearch startId rooms = fold (initStep startId) rooms (Map.empty, Map.empty, [])"

text \<open>The scan for the unvisited id of minimum distance; \<open>None\<close> is \<open>currentId === null\<close>.\<close>

definition minStep :: "distances \<Rightarrow> string \<Rightarrow> string option \<times> dist \<Rightarrow> string option \<times> dist" where
  "minStep distances i acc =
     (case readDistance distances i of
        Some d \<Rightarrow> if dist_less d (snd acc) then (Some i, d) else acc
      | None \<Rightarrow> acc)"

definition findMin :: "distances \<Rightarrow> string list \<Rightarrow> string option" where
  "findMin distances unvisited = fst (fold (minStep distances) unvisited (None, Infinity))"

text \<open>
  One pass of \<open>currentRoom.connections.forEach\<close>.  \<open>distances[currentId] + ...\<close> with an
  entry that is not a number would not be a number either, and is smaller than nothing.
\<close>

definition relax ::
  "Room list \<Rightarrow> string \<Rightarrow> Room \<Rightarrow> string list \<Rightarrow> string \<Rightarrow> distances \<times> previous \<Rightarrow> distances \<times> previous" where
  "relax rooms currentId currentRoom unvisited neighborId dp =
     (if neighborId \<notin> set unvisited then dp
      else case findRoom rooms neighborId of
        None \<Rightarrow> dp
      | Some neighbor \<Rightarrow>
          (case (readDistance (fst dp) currentId, readDistance (fst dp) neighborId) of
             (Some dc, Some dn) \<Rightarrow>
               (let distance = dist_add dc (calculateDistance currentRoom neighbor)
                in if dist_less distance dn
                   then (writeDistance (fst dp) neighborId distance,
                         (snd dp)(neighborId \<mapsto> currentId))
                   else dp)
           | _ \<Rightarrow> dp))"

text \<open>
  The main loop.  \<open>None\<close> is the \<open>TypeError\<close> of reading \<open>connections\<close> of an undefined
  \<open>currentRoom\<close> (the source asserts \<open>find(...)!\<close>).
\<close>

function dijkstraLoop ::
  "Room list \<Rightarrow> string \<Rightarrow> distances \<times> previous \<Rightarrow> string list \<Rightarrow> (distances \<times> previous) option" where
  "dijkstraLoop rooms endId dp unvisited =
     (if unvisited = [] then Some dp
      else case findMin (fst dp) unvisited of
        None \<Rightarrow> Some dp
      | Some currentId \<Rightarrow>
          if currentId = endId then Some dp
          else (case findRoom rooms currentId of
                  None \<Rightarrow> None
                | Some currentRoom \<Rightarrow>
                    dijkstraLoop rooms endId
                      (fold (relax rooms currentId currentRoom (set_delete currentId unvisited))
                         (connections currentRoom) dp)
                      (set_delete currentId unvisited)))"
  by pat_completeness auto
termination
proof (relation "measure (\<lambda>(rooms, endId, dp, unvisited). length unvisited)")
  show "wf (measure (\<lambda>(rooms, endId, dp, unvisited). length unvisited))" by simp
next
  fix rooms :: "Room list" and endId :: string and dp :: "distances \<times> previous"
    and unvisited :: "string list" and currentId :: string and currentRoom :: Room
  assume min: "findMin (fst dp) unvisited = Some currentId"
  have scan: "fst (fold (minStep d) us acc) = Some c \<Longrightarrow> c \<in> set us \<or> fst acc = Some c"
    for d us acc c
    by (induction us arbitrary: acc)
       (fastforce simp: minStep_def split: option.splits if_splits)+
  from scan [of "fst dp" unvisited "(None, Infinity)" currentId] min
  have "currentId \<in> set unvisited" by (simp add: findMin_def)
  then have "length (removeAll currentId unvisited) < length unvisited"
    by (simp add: length_removeAll_less)
  then show "((rooms, endId,
        fold (relax rooms currentId currentRoom (set_delete currentId unvisited))
          (connections currentRoom) dp,
        set_delete currentId unvisited), rooms, endId, dp, unvisited)
      \<in> measure (\<lambda>(rooms, endId, dp, unvisited). length unvisited)"
    by (simp add: set_delete_def)
qed

declare dijkstraLoop.simps [simp del]

text \<open>
  Path reconstruction.  \<open>while (currentId)\<close> stops on \<open>null\<close> and also on the empty
  string, which is falsy.  The loop follows \<open>previous\<close> for as long as it finds rooms;
  that it stops is a property of the table, so the function is partial: \<open>None\<close> is a
  loop that never returns.
\<close>

partial_function (option) reconstruct ::
  "Room list \<Rightarrow> previous \<Rightarrow> string option \<Rightarrow> Room list \<Rightarrow> Room list option" where
  "reconstruct rooms previous currentId path =
     (case currentId of
        None \<Rightarrow> Some path
      | Some c \<Rightarrow>
          if c = [] then Some path
          else (case findRoom rooms c of
                  None \<Rightarrow> Some path
                | Some room \<Rightarrow> reconstruct rooms previous (previous c) (room # path)))"

text \<open>
  The route facade.  The result is \<open>None\<close> when the source would throw or not return.
\<close>

definition getShortestPath :: "Room \<Rightarrow> Room \<Rightarrow> Room list \<Rightarrow> Room list option" where
  "getShortestPath start endR allRooms =
     (if connections start = [] \<or> connections endR = [] then
        Some (createGridBasedPath start endR allRooms)
      else
        (let rooms = searchRooms start endR allRooms
         in case initSearch (room_id start) rooms of (distances, previous, unvisited) \<Rightarrow>
           (case dijkstraLoop rooms (room_id endR) (distances, previous) unvisited of
              None \<Rightarrow> None
            | Some (distances', previous') \<Rightarrow>
                (case reconstruct rooms previous' (Some (room_id endR)) [] of
                   None \<Rightarrow> None
                 | Some path \<Rightarrow>
                     if path = [] \<or> room_id (hd path) \<noteq> room_id start
                     then Some (createGridBasedPath start endR allRooms)
                     else Some path))))"

section \<open>Graph search with the rounding of the number type\<close>

text \<open>
  The numbers of the source are doubles: every arithmetic operation returns the exact
  result rounded.  Where a statement depends on what the sums of the search are, the
  search is taken with the rounding \<open>rnd\<close> written out: a monotone, idempotent function
  that keeps 0 (round-to-nearest is one, the identity another).  Overflow to
  \<open>Infinity\<close> and \<open>NaN\<close> operands are not modelled.  With the identity for \<open>rnd\<close> these
  are the definitions above.
\<close>

definition rounding :: "(real \<Rightarrow> real) \<Rightarrow> bool" where
  "rounding rnd = ((\<forall>x y. x \<le> y \<longrightarrow> rnd x \<le> rnd y) \<and> rnd 0 = 0 \<and> (\<forall>x. rnd (rnd x) = rnd x))"

definition calculateDistanceR :: "(real \<Rightarrow> real) \<Rightarrow> Room \<Rightarrow> Room \<Rightarrow> real" where
  "calculateDistanceR rnd room1 room2 =
     rnd (sqrt (rnd (rnd ((rnd (room_x room1 - room_x room2))\<^sup>2)
                     + rnd ((rnd (room_y room1 - room_y room2))\<^sup>2))))"

fun dist_addR :: "(real \<Rightarrow> real) \<Rightarrow> dist \<Rightarrow> real \<Rightarrow> dist" where
  "dist_addR rnd (Finite a) w = Finite (rnd (a + w))"
| "dist_addR rnd Infinity w = Infinity"

definition relaxR ::
  "(real \<Rightarrow> real) \<Rightarrow> Room list \<Rightarrow> string \<Rightarrow> Room \<Rightarrow> string list \<Rightarrow> string
     \<Rightarrow> distances \<times> previous \<Rightarrow> distances \<times> previous" where
  "relaxR rnd rooms currentId currentRoom unvisited neighborId dp =
     (if neighborId \<notin> set unvisited then dp
      else case findRoom rooms neighborId of
        None \<Rightarrow> dp
      | Some neighbor \<Rightarrow>
          (case (readDistance (fst dp) currentId, readDistance (fst dp) neighborId) of
             (Some dc, Some dn) \<Rightarrow>
               (let distance = dist_addR rnd dc (calculateDistanceR rnd currentRoom neighbor)
                in if dist_less distance dn
                   then (writeDistance (fst dp) neighborId distance,
                         (snd dp)(neighborId \<mapsto> currentId))
                   else dp)
           | _ \<Rightarrow> dp))"

function dijkstraLoopR ::
  "(real \<Rightarrow> real) \<Rightarrow> Room list \<Rightarrow> string \<Rightarrow> distances \<times> previous \<Rightarrow> string list
     \<Rightarrow> (distances \<times> previous) option" where
  "dijkstraLoopR rnd rooms endId dp unvisited =
     (if unvisited = [] then Some dp
      else case findMin (fst dp) unvisited of
        None \<Rightarrow> Some dp
      | Some currentId \<Rightarrow>
          if currentId = endId then Some dp
          else (case findRoom rooms currentId of
                  None \<Rightarrow> None
                | Some currentRoom \<Rightarrow>
                    dijkstraLoopR rnd rooms endId
                      (fold (relaxR rnd rooms currentId currentRoom
                               (set_delete currentId unvisited))
                         (connections currentRoom) dp)
                      (set_delete currentId unvisited)))"
  by pat_completeness auto
termination
proof (relation "measure (\<lambda>(rnd, rooms, endId, dp, unvisited). length unvisited)")
  show "wf (measure (\<lambda>(rnd, rooms, endId, dp, unvisited). length unvisited))" by simp
next
  fix rnd :: "real \<Rightarrow> real" and rooms :: "Room list" and endId :: string
    and dp :: "distances \<times> previous" and unvisited :: "string list"
    and currentId :: string and currentRoom :: Room
  assume min: "findMin (fst dp) unvisited = Some currentId"
  have scan: "fst (fold (minStep d) us acc) = Some c \<Longrightarrow> c \<in> set us \<or> fst acc = Some c"
    for d us acc c
    by (induction us arbitrary: acc)
       (fastforce simp: minStep_def split: option.splits if_splits)+
  from scan [of "fst dp" unvisited "(None, Infinity)" currentId] min
  have "currentId \<in> set unvisited" by (simp add: findMin_def)
  then have "length (removeAll currentId unvisited) < length unvisited"
    by (simp add: length_removeAll_less)
  then show "((rnd, rooms, endId,
        fold (relaxR rnd rooms currentId currentRoom (set_delete currentId unvisited))
          (connections currentRoom) dp,
        set_delete currentId unvisited), rnd, rooms, endId, dp, unvisited)
      \<in> measure (\<lambda>(rnd, rooms, endId, dp, unvisited). length unvisited)"
    by (simp add: set_delete_def)
qed

declare dijkstraLoopR.simps [simp del]

definition getShortestPathR ::
  "(real \<Rightarrow> real) \<Rightarrow> Room \<Rightarrow> Room \<Rightarrow> Room list \<Rightarrow> Room list option" where
  "getShortestPathR rnd start endR allRooms =
     (if connections start = [] \<or> connections endR = [] then
        Some (createGridBasedPath start endR allRooms)
      else
        (let rooms = searchRooms start endR allRooms
         in case initSearch (room_id start) rooms of (distances, previous, unvisited) \<Rightarrow>
           (case dijkstraLoopR rnd rooms (room_id endR) (distances, previous) unvisited of
              None \<Rightarrow> None
            | Some (distances', previous') \<Rightarrow>
                (case reconstruct rooms previous' (Some (room_id endR)) [] of
                   None \<Rightarrow> None
                 | Some path \<Rightarrow>
                     if path = [] \<or> room_id (hd path) \<noteq> room_id start
                     then Some (createGridBasedPath start endR allRooms)
                     else Some path))))"

section \<open>Notions used in the statements\<close>

text \<open>
  The \<open>previous\<close> table is ranked when its pointers lead from a node to a node visited
  strictly earlier: the visited nodes carry their visiting order, all unvisited nodes
  the next rank.  A ranked table has no cycle, so following it ends.
\<close>

definition prevRanked :: "previous \<Rightarrow> string list \<Rightarrow> bool" where
  "prevRanked prev unvisited =
     (\<exists>(r :: string \<Rightarrow> nat) k.
        (\<forall>n p. prev n = Some p \<longrightarrow> p \<notin> set unvisited \<and> r p < r n \<and> r p < k)
        \<and> (\<forall>u \<in> set unvisited. r u = k))"

text \<open>
  The ids the synthesizer makes up begin with \<open>virtual-h-\<close>, \<open>virtual-v-\<close> or \<open>corner-\<close>.
  A node of a path is virtual when it is none of the input nodes; the claim about
  virtual nodes is \<open>virtualNodesFresh\<close>.
\<close>

definition reservedId :: "string \<Rightarrow> bool" where
  "reservedId i = (prefix ''virtual-h-'' i \<or> prefix ''virtual-v-'' i \<or> prefix ''corner-'' i)"

definition virtualNodesFresh :: "Room \<Rightarrow> Room \<Rightarrow> Room list \<Rightarrow> Room list \<Rightarrow> bool" where
  "virtualNodesFresh start endR allRooms path =
     (\<forall>n \<in> set path. n \<notin> set allRooms \<and> n \<noteq> start \<and> n \<noteq> endR \<longrightarrow>
        room_id n \<notin> room_id ` set allRooms \<and> connections n = [])"

definition isSynthesized :: "Room \<Rightarrow> bool" where
  "isSynthesized n = (connections n = [] \<and> room_type n = TWaypoint \<and> reservedId (room_id n))"

text \<open>
  The state of the minimum scan is good when it is the initial \<open>(null, Infinity)\<close> or an
  id together with its finite distance.
\<close>

definition scanGood :: "distances \<Rightarrow> string option \<times> dist \<Rightarrow> bool" where
  "scanGood d acc =
     ((fst acc = None \<and> snd acc = Infinity)
      \<or> (\<exists>j y. acc = (Some j, Finite y) \<and> readDistance d j = Some (Finite y)))"

text \<open>
  The connection graph the search works on.  Nodes are ids; an id stands for the first
  room of the list that carries it.  There is an edge from \<open>u\<close> to \<open>v\<close> when the room of
  \<open>u\<close> lists \<open>v\<close> and \<open>v\<close> resolves to a room; its weight is the Euclidean distance of
  the two rooms, computed with the rounding \<open>rnd\<close>.  A walk is a non-empty list of ids
  joined by edges.
\<close>

definition edge :: "Room list \<Rightarrow> string \<Rightarrow> string \<Rightarrow> bool" where
  "edge rooms u v =
     (case findRoom rooms u of
        None \<Rightarrow> False
      | Some ru \<Rightarrow> v \<in> set (connections ru) \<and> findRoom rooms v \<noteq> None)"

definition weight :: "(real \<Rightarrow> real) \<Rightarrow> Room list \<Rightarrow> string \<Rightarrow> string \<Rightarrow> real" where
  "weight rnd rooms u v =
     (case (findRoom rooms u, findRoom rooms v) of
        (Some ru, Some rv) \<Rightarrow> calculateDistanceR rnd ru rv
      | _ \<Rightarrow> 0)"

fun walk :: "Room list \<Rightarrow> string list \<Rightarrow> bool" where
  "walk rooms [] = False"
| "walk rooms [u] = (findRoom rooms u \<noteq> None)"
| "walk rooms (u # v # p) = (edge rooms u v \<and> walk rooms (v # p))"

text \<open>
  The length of a walk is accumulated the way the search accumulates a distance: from
  the start, edge by edge, each sum rounded.
\<close>

fun walkLenFrom :: "(real \<Rightarrow> real) \<Rightarrow> Room list \<Rightarrow> real \<Rightarrow> string list \<Rightarrow> real" where
  "walkLenFrom rnd rooms acc (u # v # p) =
     walkLenFrom rnd rooms (rnd (acc + weight rnd rooms u v)) (v # p)"
| "walkLenFrom rnd rooms acc p = acc"

definition walkLen :: "(real \<Rightarrow> real) \<Rightarrow> Room list \<Rightarrow> string list \<Rightarrow> real" where
  "walkLen rnd rooms p = walkLenFrom rnd rooms 0 p"

text \<open>An entry of the distance table is at most a real bound.\<close>

definition entryAtMost :: "dist option \<Rightarrow> real \<Rightarrow> bool" where
  "entryAtMost e z = (\<exists>x. e = Some (Finite x) \<and> x \<le> z)"

text \<open>
  The effect of one \<open>forEach\<close> over the connections of the current room \<open>cur\<close>, whose
  distance is \<open>dc\<close>: every entry is either untouched, or it belongs to an unvisited
  resolvable neighbour and was lowered to the rounded sum of \<open>dc\<close> and the edge weight.
\<close>

definition relaxedFrom ::
  "(real \<Rightarrow> real) \<Rightarrow> Room list \<Rightarrow> string \<Rightarrow> real \<Rightarrow> string list \<Rightarrow> string list
     \<Rightarrow> distances \<times> previous \<Rightarrow> distances \<times> previous \<Rightarrow> bool" where
  "relaxedFrom rnd rooms cur dc unv nbs dp dp' =
     (fst dp' cur = Some (Finite dc)
      \<and> fst dp' ''__proto__'' = None
      \<and> (\<forall>v. (fst dp' v = fst dp v \<and> snd dp' v = snd dp v)
             \<or> (v \<in> set unv \<and> v \<in> set nbs \<and> findRoom rooms v \<noteq> None
                 \<and> fst dp' v = Some (Finite (rnd (dc + weight rnd rooms cur v)))
                 \<and> snd dp' v = Some cur
                 \<and> (\<exists>dn. fst dp v = Some dn
                        \<and> dist_less (Finite (rnd (dc + weight rnd rooms cur v))) dn)))
      \<and> (\<forall>v \<in> set nbs. v \<in> set unv \<and> findRoom rooms v \<noteq> None \<and> fst dp v \<noteq> None \<longrightarrow>
             entryAtMost (fst dp' v) (rnd (dc + weight rnd rooms cur v))))"

text \<open>
  The invariant of the main loop.  The visited ids are those removed from \<open>unvisited\<close>.
\<close>

definition visited :: "Room list \<Rightarrow> string list \<Rightarrow> string set" where
  "visited rooms unv = room_id ` set rooms - set unv"

definition searchInv ::
  "(real \<Rightarrow> real) \<Rightarrow> Room list \<Rightarrow> string \<Rightarrow> distances \<Rightarrow> previous \<Rightarrow> string list \<Rightarrow> bool" where
  "searchInv rnd rooms sid d prev unv =
     (set unv \<subseteq> room_id ` set rooms
      \<and> sid \<in> room_id ` set rooms
      \<and> (\<forall>v \<in> room_id ` set rooms. d v \<noteq> None)
      \<and> d sid = Some (Finite 0)
      \<and> (visited rooms unv \<noteq> {} \<longrightarrow> sid \<in> visited rooms unv)
      \<and> (\<forall>v \<in> visited rooms unv. \<exists>x. d v = Some (Finite x))
      \<and> (\<forall>v x. d v = Some (Finite x) \<longrightarrow>
            (v = sid \<and> x = 0 \<and> prev v = None)
            \<or> (\<exists>u y. prev v = Some u \<and> u \<in> visited rooms unv \<and> d u = Some (Finite y)
                  \<and> edge rooms u v \<and> x = rnd (y + weight rnd rooms u v)))
      \<and> (\<forall>v \<in> visited rooms unv. \<forall>x p.
            d v = Some (Finite x) \<and> walk rooms p \<and> hd p = sid \<and> last p = v
            \<longrightarrow> x \<le> walkLen rnd rooms p)
      \<and> (\<forall>u \<in> visited rooms unv. \<forall>v \<in> set unv. \<forall>y.
            edge rooms u v \<and> d u = Some (Finite y)
            \<longrightarrow> entryAtMost (d v) (rnd (y + weight rnd rooms u v)))
      \<and> (\<forall>v u. prev v = Some u \<longrightarrow> (\<exists>x. d v = Some (Finite x)))
      \<and> d ''__proto__'' = None)"

text \<open>
  Paths of rooms.  A connection path follows listed connections in their direction:
  each room lists the id of its successor.  An undirected path may take a connection
  from either end, which is how the data model words it.  \<open>pathLength\<close> is the total
  Euclidean length, summed from the first room on with the rounding \<open>rnd\<close>.
\<close>

fun connectionPath :: "Room list \<Rightarrow> Room list \<Rightarrow> bool" where
  "connectionPath rooms [] = False"
| "connectionPath rooms [a] = (a \<in> set rooms)"
| "connectionPath rooms (a # b # q) =
     (a \<in> set rooms \<and> room_id b \<in> set (connections a) \<and> connectionPath rooms (b # q))"

fun undirectedPath :: "Room list \<Rightarrow> Room list \<Rightarrow> bool" where
  "undirectedPath rooms [] = False"
| "undirectedPath rooms [a] = (a \<in> set rooms)"
| "undirectedPath rooms (a # b # q) =
     (a \<in> set rooms
      \<and> (room_id b \<in> set (connections a) \<or> room_id a \<in> set (connections b))
      \<and> undirectedPath rooms (b # q))"

fun pathLengthFrom :: "(real \<Rightarrow> real) \<Rightarrow> real \<Rightarrow> Room list \<Rightarrow> real" where
  "pathLengthFrom rnd acc (a # b # q) =
     pathLengthFrom rnd (rnd (acc + calculateDistanceR rnd a b)) (b # q)"
| "pathLengthFrom rnd acc q = acc"

definition pathLength :: "(real \<Rightarrow> real) \<Rightarrow> Room list \<Rightarrow> real" where
  "pathLength rnd q = pathLengthFrom rnd 0 q"

text \<open>
  The ids the tables of the search can hold: the reconstruction loop takes the empty
  string for \<open>null\<close>, and the distance table stores nothing under \<open>__proto__\<close>.
\<close>

definition usableId :: "Room \<Rightarrow> bool" where
  "usableId r = (room_id r \<noteq> [] \<and> room_id r \<noteq> ''__proto__'')"

definition nodesOf :: "Room list \<Rightarrow> string list \<Rightarrow> Room list" where
  "nodesOf rooms p = map (\<lambda>i. the (findRoom rooms i)) p"

text \<open>
  The symmetrized graph: every room also lists the ids of the rooms that list it.
\<close>

definition backLinks :: "Room list \<Rightarrow> Room \<Rightarrow> string list" where
  "backLinks rooms r =
     map room_id (filter (\<lambda>a. room_id r \<in> set (connections a)
                              \<and> room_id a \<notin> set (connections r)) rooms)"

definition symmetrizeRoom :: "Room list \<Rightarrow> Room \<Rightarrow> Room" where
  "symmetrizeRoom rooms r = r\<lparr>connections := connections r @ backLinks rooms r\<rparr>"

definition symmetrize :: "Room list \<Rightarrow> Room list" where
  "symmetrize rooms = map (symmetrizeRoom rooms) rooms"

definition symmetricConnections :: "Room list \<Rightarrow> bool" where
  "symmetricConnections rooms =
     (\<forall>a \<in> set rooms. \<forall>b \<in> set rooms.
        room_id b \<in> set (connections a) \<longrightarrow> room_id a \<in> set (connections b))"

section \<open>Example graphs\<close>

definition node :: "string \<Rightarrow> real \<Rightarrow> real \<Rightarrow> string list \<Rightarrow> RoomType \<Rightarrow> Room" where
  "node i px py cs t =
     \<lparr> room_id = i, room_name = i, room_x = px, room_y = py, connections = cs, room_type = t \<rparr>"

text \<open>Two rooms that list each other, 100 units apart.\<close>

definition pairA :: Room where "pairA = node ''a'' 0 0 [''b''] TRoom"
definition pairB :: Room where "pairB = node ''b'' 100 0 [''a''] TRoom"

text \<open>Two isolated rooms, apart in both axes, in a graph without waypoints.\<close>

definition isolatedA :: Room where "isolatedA = node ''a'' 0 0 [] TRoom"
definition isolatedB :: Room where "isolatedB = node ''b'' 200 150 [] TRoom"

text \<open>A room whose id is the one the synthesizer gives its horizontal waypoint.\<close>

definition clashRoom :: Room where "clashRoom = node ''virtual-h-a-b'' 500 500 [] TRoom"

text \<open>A node with the id of \<open>pairA\<close> and other coordinates.\<close>

definition staleCopy :: Room where "staleCopy = node ''a'' 5 5 [] TRoom"

text \<open>
  Detours from \<open>f\<close> to \<open>t\<close>.  The waypoint \<open>cornerVia\<close> is reached over the room \<open>onLeg\<close>,
  which lies on the leg from \<open>f\<close>.  The legs of the waypoint \<open>detourVia\<close> are clear; the
  room \<open>farRoom\<close> is 500 away from the line of its first leg.
\<close>

definition detourFrom :: Room where "detourFrom = node ''f'' 0 0 [] TRoom"
definition detourTo :: Room where "detourTo = node ''t'' 100 100 [] TRoom"
definition detourVia :: Room where "detourVia = node ''w'' 0 100 [] TWaypoint"
definition cornerVia :: Room where "cornerVia = node ''w'' 100 0 [] TWaypoint"
definition onLeg :: Room where "onLeg = node ''m'' 50 0 [] TRoom"
definition farRoom :: Room where "farRoom = node ''m'' 500 0 [] TRoom"

text \<open>A corridor from \<open>s\<close> to \<open>e\<close> blocked by the room \<open>m\<close>, with one waypoint off the corridor.\<close>

definition blockedStart :: Room where "blockedStart = node ''s'' 0 0 [] TRoom"
definition blockedEnd :: Room where "blockedEnd = node ''e'' 100 0 [] TRoom"
definition blockedMid :: Room where "blockedMid = node ''m'' 50 0 [] TRoom"
definition blockedWaypoint :: Room where "blockedWaypoint = node ''w'' 50 60 [] TWaypoint"
definition blockedRooms :: "Room list" where
  "blockedRooms = [blockedStart, blockedEnd, blockedMid, blockedWaypoint]"

text \<open>A one-way connection: \<open>a\<close> lists \<open>b\<close>, and \<open>b\<close> lists only an id that resolves to no room.\<close>

definition oneWayA :: Room where "oneWayA = node ''a'' 0 0 [''b''] TRoom"
definition oneWayB :: Room where "oneWayB = node ''b'' 30 40 [''x''] TRoom"

text \<open>Two rooms that list each other, one of them with the empty string as its id.\<close>

definition emptyIdA :: Room where "emptyIdA = node [] 0 0 [''b''] TRoom"
definition emptyIdB :: Room where "emptyIdB = node ''b'' 30 40 [[]] TRoom"

text \<open>Two rooms that list each other, one of them with the id \<open>__proto__\<close>.\<close>

definition protoIdA :: Room where "protoIdA = node ''__proto__'' 0 0 [''b''] TRoom"
definition protoIdB :: Room where "protoIdB = node ''b'' 30 40 [''__proto__''] TRoom"

text \<open>
  A triangle: from \<open>a\<close> the direct connection to \<open>c\<close> is 50 long, the way over \<open>b\<close> is
  30 + 40.
\<close>

definition detourA :: Room where "detourA = node ''a'' 0 0 [''c'', ''b''] TRoom"
definition detourB :: Room where "detourB = node ''b'' 30 0 [''c''] TRoom"
definition detourC :: Room where "detourC = node ''c'' 30 40 [''a''] TRoom"

section \<open>Auxiliary facts\<close>

lemma find_SomeD: "find P xs = Some x \<Longrightarrow> x \<in> set xs \<and> P x"
  by (induction xs) (auto split: if_splits)

lemma find_NoneD: "find P xs = None \<Longrightarrow> x \<in> set xs \<Longrightarrow> \<not> P x"
  by (induction xs) (auto split: if_splits)

lemma sqrt_10000: "sqrt 10000 = 100"
  by (rule real_sqrt_unique) simp_all

section \<open>The waypoint detour selector\<close>

text \<open>
  What the selector returns, in terms of the answers of \<open>isPathObstructed\<close>: a list of
  three elements, either \<open>[from, w, to]\<close> for a waypoint \<open>w\<close> within the 1.5 bound for
  which \<open>isPathObstructed\<close> answers false on both legs, or, when the list has no such
  waypoint, the corner triple.
\<close>

lemma findRouteThroughWaypoints_shape:
  "length (findRouteThroughWaypoints fromR toR waypoints allRooms) = 3 \<and>
   ((\<exists>w \<in> set waypoints.
        findRouteThroughWaypoints fromR toR waypoints allRooms = [fromR, w, toR]
        \<and> calculateManhattanDistance fromR w + calculateManhattanDistance w toR
             < 1.5 * calculateManhattanDistance fromR toR
        \<and> \<not> isPathObstructed fromR w allRooms
        \<and> \<not> isPathObstructed w toR allRooms)
    \<or> ((\<forall>w \<in> set waypoints.
            \<not> (calculateManhattanDistance fromR w + calculateManhattanDistance w toR
                   < 1.5 * calculateManhattanDistance fromR toR
                \<and> \<not> isPathObstructed fromR w allRooms
                \<and> \<not> isPathObstructed w toR allRooms))
        \<and> findRouteThroughWaypoints fromR toR waypoints allRooms
              = [fromR, cornerNode fromR toR, toR]
        \<and> room_x (cornerNode fromR toR) = room_x toR
        \<and> room_y (cornerNode fromR toR) = room_y fromR))"
proof -
  let ?P = "\<lambda>w. viaDistance fromR toR w < calculateManhattanDistance fromR toR * (3 / 2)"
  let ?Q = "\<lambda>w. \<not> isPathObstructed fromR w allRooms \<and> \<not> isPathObstructed w toR allRooms"
  let ?sorted = "sort_key (viaDistance fromR toR) (filter ?P waypoints)"
  show ?thesis
  proof (cases "find ?Q ?sorted")
    case None
    from find_NoneD [OF this] have "\<forall>w \<in> set ?sorted. \<not> ?Q w"
      by blast
    then have "\<forall>w \<in> set waypoints. \<not> (?P w \<and> ?Q w)"
      by auto
    with None show ?thesis
      by (simp add: findRouteThroughWaypoints_def cornerNode_def viaDistance_def mult.commute)
  next
    case (Some w)
    from find_SomeD [OF this] have "w \<in> set ?sorted" and "?Q w"
      by blast+
    then have "w \<in> set waypoints" and "?P w" by simp_all
    with Some \<open>?Q w\<close> show ?thesis
      by (auto simp add: findRouteThroughWaypoints_def viaDistance_def mult.commute)
  qed
qed

text \<open>
  Claim C7 asks for more: both legs of the returned waypoint are unobstructed, and the
  corner is returned only when no waypoint qualifies.  With obstruction as the
  documentation defines it, the code does neither.  From \<open>f\<close> (0,0) to \<open>t\<close> (100,100) with
  the waypoint (100,0) and a room at (50,0), it returns the waypoint although the room
  lies on the leg from \<open>f\<close> to the waypoint.  With the waypoint (0,100) and a room at
  (500,0), the waypoint is within the bound and both of its legs are unobstructed, yet
  the code returns the corner.  The cause is the swapped coefficients of
  \<open>linePassesThroughRoom\<close>.
\<close>

theorem findRouteThroughWaypoints_obstruction_mismatch:
  "findRouteThroughWaypoints detourFrom detourTo [cornerVia]
       [detourFrom, detourTo, cornerVia, onLeg] = [detourFrom, cornerVia, detourTo]
   \<and> isObstructedSpec detourFrom cornerVia [detourFrom, detourTo, cornerVia, onLeg]
   \<and> calculateManhattanDistance detourFrom detourVia
         + calculateManhattanDistance detourVia detourTo
       < 1.5 * calculateManhattanDistance detourFrom detourTo
   \<and> \<not> isObstructedSpec detourFrom detourVia [detourFrom, detourTo, detourVia, farRoom]
   \<and> \<not> isObstructedSpec detourVia detourTo [detourFrom, detourTo, detourVia, farRoom]
   \<and> findRouteThroughWaypoints detourFrom detourTo [detourVia]
       [detourFrom, detourTo, detourVia, farRoom]
       = [detourFrom, cornerNode detourFrom detourTo, detourTo]"
  by (simp add: findRouteThroughWaypoints_def viaDistance_def calculateManhattanDistance_def
      isPathObstructed_def linePassesThroughRoom_def isObstructedSpec_def
      perpendicularDistance_def defaultRoomRadius_def
      detourFrom_def detourTo_def detourVia_def cornerVia_def onLeg_def farRoom_def
      node_def sqrt_10000)

section \<open>The obstruction test\<close>

text \<open>
  Claim C4.  The claim is that \<open>linePassesThroughRoom\<close> is true exactly when the
  perpendicular distance from the point to the line through \<open>p1\<close> and \<open>p2\<close> is below
  the radius, so that \<open>isPathObstructed\<close> is true for a room lying on the straight line
  between start and destination.  The code pairs the coefficient \<open>x1 - x2\<close> with the
  point's x and \<open>y1 - y2\<close> with its y: for the segment from \<open>(0, 0)\<close> to \<open>(100, 0)\<close> and
  the room at its midpoint \<open>(50, 0)\<close> the perpendicular distance is 0, yet the test
  computes 50 and answers false, and \<open>isPathObstructed\<close> is false.  In the other
  direction the point \<open>(0, 500)\<close> is 500 away from that line, and the test answers true.
\<close>

theorem linePassesThroughRoom_misses_midpoint:
  "perpendicularDistance 0 0 100 0 50 0 < 20
   \<and> \<not> linePassesThroughRoom 0 0 100 0 50 0 20
   \<and> \<not> isPathObstructed (node ''a'' 0 0 [] TRoom) (node ''b'' 100 0 [] TRoom)
         [node ''a'' 0 0 [] TRoom, node ''m'' 50 0 [] TRoom, node ''b'' 100 0 [] TRoom]
   \<and> 20 < perpendicularDistance 0 0 100 0 0 500
   \<and> linePassesThroughRoom 0 0 100 0 0 500 20"
  by (simp add: perpendicularDistance_def linePassesThroughRoom_def isPathObstructed_def
      node_def defaultRoomRadius_def sqrt_10000)

section \<open>The fallback synthesizer\<close>

lemma horizontalLeg_shape:
  "\<exists>rest. horizontalLeg start endR allRooms = start # rest"
  by (simp add: horizontalLeg_def Let_def split: option.splits)

lemma verticalLeg_shape:
  "\<exists>rest. verticalLeg start endR allRooms (p # ps) = p # rest"
  by (simp add: verticalLeg_def Let_def split: option.splits)

lemma createGridBasedPath_endpoints:
  "createGridBasedPath start endR allRooms \<noteq> []
   \<and> hd (createGridBasedPath start endR allRooms) = start
   \<and> room_id (last (createGridBasedPath start endR allRooms)) = room_id endR"
proof -
  obtain r1 where h: "horizontalLeg start endR allRooms = start # r1"
    using horizontalLeg_shape by blast
  obtain r2 where v: "verticalLeg start endR allRooms (start # r1) = start # r2"
    using verticalLeg_shape by blast
  show ?thesis
    by (simp add: createGridBasedPath_def Let_def h v)
qed

lemma fold_nearestStep_snd:
  "snd acc = calculateDistance room (fst acc) \<Longrightarrow>
   snd (fold (nearestStep room) ws acc) = calculateDistance room (fst (fold (nearestStep room) ws acc))"
proof (induction ws arbitrary: acc)
  case Nil
  then show ?case by simp
next
  case (Cons w ws)
  have "snd (nearestStep room w acc) = calculateDistance room (fst (nearestStep room w acc))"
    using Cons.prems by (simp add: nearestStep_def Let_def)
  from Cons.IH [OF this] show ?case by simp
qed

lemma fold_nearestStep_mem:
  "fst (fold (nearestStep room) ws acc) \<in> insert (fst acc) (set ws)"
proof (induction ws arbitrary: acc)
  case Nil
  show ?case by simp
next
  case (Cons w ws)
  have "fst (nearestStep room w acc) = w \<or> fst (nearestStep room w acc) = fst acc"
    by (simp add: nearestStep_def Let_def)
  with Cons [of "nearestStep room w acc"] show ?case by auto
qed

lemma fold_nearestStep_le_acc:
  "snd (fold (nearestStep room) ws acc) \<le> snd acc"
proof (induction ws arbitrary: acc)
  case Nil
  show ?case by simp
next
  case (Cons w ws)
  have "snd (nearestStep room w acc) \<le> snd acc"
    by (simp add: nearestStep_def Let_def)
  with Cons [of "nearestStep room w acc"] show ?case by simp
qed

lemma fold_nearestStep_le:
  "w \<in> set ws \<Longrightarrow> snd (fold (nearestStep room) ws acc) \<le> calculateDistance room w"
proof (induction ws arbitrary: acc)
  case Nil
  then show ?case by simp
next
  case (Cons v ws)
  show ?case
  proof (cases "w = v")
    case True
    have "snd (nearestStep room v acc) \<le> calculateDistance room v"
      by (simp add: nearestStep_def Let_def)
    with fold_nearestStep_le_acc [of room ws "nearestStep room v acc"] True
    show ?thesis by simp
  next
    case False
    with Cons.prems have "w \<in> set ws" by simp
    from Cons.IH [OF this] show ?thesis by simp
  qed
qed

lemma findNearestWaypoint_nearest:
  assumes "findNearestWaypoint room waypoints = Some n"
  shows "n \<in> set waypoints"
    and "w \<in> set waypoints \<Longrightarrow> calculateDistance room n \<le> calculateDistance room w"
proof -
  from assms obtain w0 rest where ws: "waypoints = w0 # rest"
    and n: "n = fst (fold (nearestStep room) rest (w0, calculateDistance room w0))"
    by (auto simp: findNearestWaypoint_def split: list.splits)
  let ?acc = "(w0, calculateDistance room w0)"
  from fold_nearestStep_mem [of room rest ?acc] show "n \<in> set waypoints"
    by (simp add: ws n)
  have eq: "snd (fold (nearestStep room) rest ?acc) = calculateDistance room n"
    using fold_nearestStep_snd [of ?acc room rest] by (simp add: n)
  assume "w \<in> set waypoints"
  then consider "w = w0" | "w \<in> set rest" by (auto simp: ws)
  then show "calculateDistance room n \<le> calculateDistance room w"
  proof cases
    case 1
    with fold_nearestStep_le_acc [of room rest ?acc] eq show ?thesis by simp
  next
    case 2
    from fold_nearestStep_le [OF this, of room ?acc] eq show ?thesis by simp
  qed
qed

lemma findNearestWaypoint_None: "findNearestWaypoint room waypoints = None \<longleftrightarrow> waypoints = []"
  by (simp add: findNearestWaypoint_def split: list.splits)

text \<open>
  Claim C5, as the claim states it, is false: with the horizontal corridor from
  \<open>(0, 0)\<close> to \<open>(100, 0)\<close> blocked by a room at \<open>(50, 0)\<close> and no waypoint near the target,
  the path after the horizontal leg is not the start followed by the tail of the
  detour selector's result.
\<close>

theorem horizontalLeg_delegation_counterexample:
  "20 < \<bar>room_x blockedEnd - room_x blockedStart\<bar>
   \<and> findWaypointNear (waypointsOf blockedRooms) (room_x blockedEnd) (room_y blockedStart) = None
   \<and> horizontalObstructed blockedStart blockedEnd blockedRooms
   \<and> horizontalLeg blockedStart blockedEnd blockedRooms
        \<noteq> blockedStart # tl (findRouteThroughWaypoints blockedStart blockedEnd
                                (waypointsOf blockedRooms) blockedRooms)"
  by (simp add: horizontalLeg_def findWaypointNear_def waypointsOf_def horizontalObstructed_def
      findNearestWaypoint_def findRouteThroughWaypoints_def viaDistance_def
      calculateManhattanDistance_def cornerNode_def
      blockedRooms_def blockedStart_def blockedEnd_def blockedMid_def blockedWaypoint_def node_def)

text \<open>
  Claim C5, amended.  When the horizontal leg applies (\<open>|destination.x - start.x| > 20\<close>),
  no existing waypoint lies within 15 units in both axes of \<open>(destination.x, start.y)\<close>
  and the horizontal corridor is blocked, the synthesizer appends the existing waypoint
  nearest to \<open>start\<close> in Euclidean distance (the result of \<open>findNearestWaypoint\<close>), and
  appends nothing for this leg when the graph has no waypoint.  The detour selector is
  not consulted for the horizontal leg.
\<close>

theorem horizontalLeg_blocked_uses_nearest_waypoint:
  assumes "\<bar>room_x endR - room_x start\<bar> > 20"
    and "findWaypointNear (waypointsOf allRooms) (room_x endR) (room_y start) = None"
    and "horizontalObstructed start endR allRooms"
  shows "(waypointsOf allRooms = [] \<and> horizontalLeg start endR allRooms = [start])
       \<or> (\<exists>n \<in> set (waypointsOf allRooms).
             horizontalLeg start endR allRooms = [start, n]
             \<and> findNearestWaypoint start (waypointsOf allRooms) = Some n
             \<and> (\<forall>w \<in> set (waypointsOf allRooms).
                   calculateDistance start n \<le> calculateDistance start w))"
proof (cases "findNearestWaypoint start (waypointsOf allRooms)")
  case None
  then have "waypointsOf allRooms = []" by (simp add: findNearestWaypoint_None)
  with assms None show ?thesis
    by (simp add: horizontalLeg_def Let_def waypointsOf_def)
next
  case (Some n)
  from findNearestWaypoint_nearest [OF Some] have "n \<in> set (waypointsOf allRooms)"
    and "\<forall>w \<in> set (waypointsOf allRooms). calculateDistance start n \<le> calculateDistance start w"
    by blast+
  moreover from assms Some have "horizontalLeg start endR allRooms = [start, n]"
    by (simp add: horizontalLeg_def Let_def waypointsOf_def)
  ultimately show ?thesis using Some by blast
qed

theorem horizontalLeg_blocked_uses_nearest_waypoint_witness:
  "20 < \<bar>room_x blockedEnd - room_x blockedStart\<bar>
   \<and> findWaypointNear (waypointsOf blockedRooms) (room_x blockedEnd) (room_y blockedStart) = None
   \<and> horizontalObstructed blockedStart blockedEnd blockedRooms
   \<and> horizontalLeg blockedStart blockedEnd blockedRooms = [blockedStart, blockedWaypoint]"
proof -
  have h1: "20 < \<bar>room_x blockedEnd - room_x blockedStart\<bar>"
    by (simp add: blockedStart_def blockedEnd_def node_def)
  have h2: "findWaypointNear (waypointsOf blockedRooms) (room_x blockedEnd) (room_y blockedStart)
              = None"
    by (simp add: findWaypointNear_def waypointsOf_def blockedRooms_def blockedStart_def
        blockedEnd_def blockedMid_def blockedWaypoint_def node_def)
  have h3: "horizontalObstructed blockedStart blockedEnd blockedRooms"
    by (simp add: horizontalObstructed_def blockedRooms_def blockedStart_def
        blockedEnd_def blockedMid_def blockedWaypoint_def node_def)
  have w: "waypointsOf blockedRooms = [blockedWaypoint]"
    by (simp add: waypointsOf_def blockedRooms_def blockedStart_def
        blockedEnd_def blockedMid_def blockedWaypoint_def node_def)
  from horizontalLeg_blocked_uses_nearest_waypoint [OF h1 h2 h3]
  have "horizontalLeg blockedStart blockedEnd blockedRooms = [blockedStart, blockedWaypoint]"
    by (simp add: w)
  with h1 h2 h3 show ?thesis by simp
qed

section \<open>The graph search returns\<close>

lemma calculateDistanceR_id: "calculateDistanceR (\<lambda>x. x) room1 room2 = calculateDistance room1 room2"
  by (simp add: calculateDistanceR_def calculateDistance_def power2_eq_square)

lemma dist_addR_id: "dist_addR (\<lambda>x. x) d w = dist_add d w"
  by (cases d) simp_all

lemma relaxR_id: "relaxR (\<lambda>x. x) rooms cur cr unv nb dp = relax rooms cur cr unv nb dp"
  by (auto simp: relaxR_def relax_def calculateDistanceR_id dist_addR_id split: option.splits)

lemma fold_relaxR_id:
  "fold (relaxR (\<lambda>x. x) rooms cur cr unv) nbs dp = fold (relax rooms cur cr unv) nbs dp"
  by (induction nbs arbitrary: dp) (simp_all add: relaxR_id)

lemma dijkstraLoopR_id: "dijkstraLoopR (\<lambda>x. x) rooms endId dp unv = dijkstraLoop rooms endId dp unv"
proof (induction rooms endId dp unv rule: dijkstraLoop.induct)
  case (1 rooms endId dp unv)
  show ?case
  proof (cases "unv = [] \<or> findMin (fst dp) unv = None \<or> findMin (fst dp) unv = Some endId")
    case True
    then show ?thesis
      by (subst dijkstraLoopR.simps, subst dijkstraLoop.simps) auto
  next
    case False
    then obtain cur where cur: "unv \<noteq> []" "findMin (fst dp) unv = Some cur" "cur \<noteq> endId"
      by auto
    show ?thesis
    proof (cases "findRoom rooms cur")
      case None
      with cur show ?thesis
        by (subst dijkstraLoopR.simps, subst dijkstraLoop.simps) simp
    next
      case (Some cr)
      from "1.IH" [OF cur Some] cur Some show ?thesis
        by (subst dijkstraLoopR.simps, subst dijkstraLoop.simps) (simp add: fold_relaxR_id)
    qed
  qed
qed

lemma getShortestPathR_id: "getShortestPathR (\<lambda>x. x) start endR allRooms = getShortestPath start endR allRooms"
  by (simp add: getShortestPathR_def getShortestPath_def dijkstraLoopR_id)

lemma findRoom_SomeD: "findRoom rooms i = Some r \<Longrightarrow> r \<in> set rooms \<and> room_id r = i"
  unfolding findRoom_def by (drule find_SomeD) simp

lemma findRoom_None_iff: "findRoom rooms i = None \<longleftrightarrow> i \<notin> room_id ` set rooms"
  unfolding findRoom_def by (induction rooms) auto

lemma reconstruct_result:
  assumes "reconstruct rooms prev cur acc = Some p"
  shows "\<exists>q. p = q @ acc \<and> set q \<subseteq> set rooms
       \<and> (q \<noteq> [] \<longrightarrow> cur = Some (room_id (last q)))"
proof (rule reconstruct.raw_induct
    [where P = "\<lambda>rooms prev cur acc p. \<exists>q. p = q @ acc \<and> set q \<subseteq> set rooms
       \<and> (q \<noteq> [] \<longrightarrow> cur = Some (room_id (last q)))", OF _ assms], goal_cases)
  case (1 rec rooms prev cur acc p)
  show ?case
  proof (cases cur)
    case None
    with 1(2) show ?thesis by simp
  next
    case (Some c)
    show ?thesis
    proof (cases "c = [] \<or> findRoom rooms c = None")
      case True
      with 1(2) Some have "p = acc" by (auto split: if_splits)
      then show ?thesis by simp
    next
      case False
      then obtain room where room: "findRoom rooms c = Some room" and c: "c \<noteq> []" by auto
      with 1(2) Some have "rec rooms prev (prev c) (room # acc) = Some p" by simp
      from 1(1) [OF this] obtain q where q: "p = q @ room # acc" "set q \<subseteq> set rooms"
        by blast
      from findRoom_SomeD [OF room] have "room \<in> set rooms" "room_id room = c" by simp_all
      with q Some have "p = (q @ [room]) @ acc \<and> set (q @ [room]) \<subseteq> set rooms
          \<and> cur = Some (room_id (last (q @ [room])))" by simp
      then show ?thesis by blast
    qed
  qed
qed

lemma reconstruct_terminates:
  assumes "\<And>n p. prev n = Some p \<Longrightarrow> (r :: string \<Rightarrow> nat) p < r n"
  shows "\<exists>res. reconstruct rooms prev cur acc = Some res"
proof (induction "case cur of None \<Rightarrow> 0 | Some c \<Rightarrow> Suc (r c)" arbitrary: cur acc rule: less_induct)
  case less
  show ?case
  proof (cases cur)
    case None
    then show ?thesis by (simp add: reconstruct.simps)
  next
    case (Some c)
    show ?thesis
    proof (cases "c = [] \<or> findRoom rooms c = None")
      case True
      with Some show ?thesis by (auto simp: reconstruct.simps)
    next
      case False
      then obtain room where room: "findRoom rooms c = Some room" and c: "c \<noteq> []" by auto
      have "(case prev c of None \<Rightarrow> 0 | Some c' \<Rightarrow> Suc (r c')) < Suc (r c)"
        using assms [of c] by (auto split: option.splits)
      with less [of "prev c" "room # acc"] Some
      obtain res where "reconstruct rooms prev (prev c) (room # acc) = Some res" by auto
      with Some room c show ?thesis by (subst reconstruct.simps) simp
    qed
  qed
qed

lemma relaxR_prev:
  "snd (relaxR rnd rooms cur cr unv nb dp) n = snd dp n
   \<or> (snd (relaxR rnd rooms cur cr unv nb dp) n = Some cur \<and> n \<in> set unv)"
  by (auto simp: relaxR_def Let_def split: option.splits)

lemma fold_relaxR_prev:
  "snd (fold (relaxR rnd rooms cur cr unv) nbs dp) n = snd dp n
   \<or> (snd (fold (relaxR rnd rooms cur cr unv) nbs dp) n = Some cur \<and> n \<in> set unv)"
proof (induction nbs arbitrary: dp)
  case Nil
  show ?case by simp
next
  case (Cons nb nbs)
  from Cons [of "relaxR rnd rooms cur cr unv nb dp"] relaxR_prev [of rnd rooms cur cr unv nb dp n]
  show ?case by auto
qed

lemma prevRanked_step:
  assumes inv: "prevRanked (snd dp) unv" and cur: "cur \<in> set unv"
  shows "prevRanked (snd (fold (relaxR rnd rooms cur cr (set_delete cur unv)) nbs dp))
           (set_delete cur unv)"
proof -
  let ?unv' = "set_delete cur unv"
  let ?prev' = "snd (fold (relaxR rnd rooms cur cr ?unv') nbs dp)"
  from inv obtain r :: "string \<Rightarrow> nat" and k where
    r1: "\<And>n p. snd dp n = Some p \<Longrightarrow> p \<notin> set unv \<and> r p < r n \<and> r p < k"
    and r2: "\<And>u. u \<in> set unv \<Longrightarrow> r u = k"
    unfolding prevRanked_def by blast
  define r' where "r' = (\<lambda>n. if n \<in> set ?unv' then Suc k else r n)"
  have sub: "set ?unv' = set unv - {cur}" by (auto simp: set_delete_def)
  have "p \<notin> set ?unv' \<and> r' p < r' n \<and> r' p < Suc k" if np: "?prev' n = Some p" for n p
  proof -
    from fold_relaxR_prev [of rnd rooms cur cr ?unv' nbs dp n] np
    consider "snd dp n = Some p" | "p = cur" "n \<in> set ?unv'" by auto
    then show ?thesis
    proof cases
      case 1
      from r1 [OF 1] have "p \<notin> set unv" "r p < r n" "r p < k" by simp_all
      then show ?thesis using sub by (auto simp: r'_def)
    next
      case 2
      with cur r2 [OF cur] sub show ?thesis by (auto simp: r'_def)
    qed
  qed
  moreover have "\<forall>u \<in> set ?unv'. r' u = Suc k" by (simp add: r'_def)
  ultimately show ?thesis unfolding prevRanked_def by blast
qed

lemma findMin_fold_mem:
  "fst (fold (minStep d) us acc) = Some c \<Longrightarrow> c \<in> set us \<or> fst acc = Some c"
proof (induction us arbitrary: acc)
  case Nil
  then show ?case by simp
next
  case (Cons u us)
  from Cons.prems have "fst (fold (minStep d) us (minStep d u acc)) = Some c" by simp
  from Cons.IH [OF this] show ?case
    by (auto simp: minStep_def split: option.splits if_splits)
qed

lemma findMin_mem: "findMin d us = Some c \<Longrightarrow> c \<in> set us"
  using findMin_fold_mem [of d us "(None, Infinity)" c] by (simp add: findMin_def)

lemma dijkstraLoopR_prevRanked:
  "dijkstraLoopR rnd rooms endId dp unv = Some dp' \<Longrightarrow> prevRanked (snd dp) unv \<Longrightarrow>
   \<exists>unv'. prevRanked (snd dp') unv'"
proof (induction rnd rooms endId dp unv rule: dijkstraLoopR.induct)
  case (1 rnd rooms endId dp unv)
  show ?case
  proof (cases "unv = [] \<or> findMin (fst dp) unv = None \<or> findMin (fst dp) unv = Some endId")
    case True
    with "1.prems" have "dp' = dp"
      by (subst (asm) dijkstraLoopR.simps) (auto split: option.splits if_splits)
    with "1.prems" show ?thesis by blast
  next
    case False
    then obtain cur where cur: "unv \<noteq> []" "findMin (fst dp) unv = Some cur" "cur \<noteq> endId"
      by auto
    with "1.prems"(1) obtain cr where cr: "findRoom rooms cur = Some cr"
      and rec: "dijkstraLoopR rnd rooms endId
                  (fold (relaxR rnd rooms cur cr (set_delete cur unv)) (connections cr) dp)
                  (set_delete cur unv) = Some dp'"
      by (subst (asm) dijkstraLoopR.simps) (auto split: option.splits)
    from findMin_mem [OF cur(2)] have "cur \<in> set unv" .
    from prevRanked_step [OF "1.prems"(2) this]
    have "prevRanked (snd (fold (relaxR rnd rooms cur cr (set_delete cur unv)) (connections cr) dp))
            (set_delete cur unv)" .
    from "1.IH" [OF cur cr rec this] show ?thesis .
  qed
qed

lemma dijkstraLoopR_returns:
  "set unv \<subseteq> room_id ` set rooms \<Longrightarrow> \<exists>dp'. dijkstraLoopR rnd rooms endId dp unv = Some dp'"
proof (induction rnd rooms endId dp unv rule: dijkstraLoopR.induct)
  case (1 rnd rooms endId dp unv)
  show ?case
  proof (cases "unv = [] \<or> findMin (fst dp) unv = None \<or> findMin (fst dp) unv = Some endId")
    case True
    then show ?thesis
      by (subst dijkstraLoopR.simps) auto
  next
    case False
    then obtain cur where cur: "unv \<noteq> []" "findMin (fst dp) unv = Some cur" "cur \<noteq> endId"
      by auto
    from findMin_mem [OF cur(2)] "1.prems" have "cur \<in> room_id ` set rooms" by blast
    then obtain cr where cr: "findRoom rooms cur = Some cr"
      using findRoom_None_iff [of rooms cur] by (cases "findRoom rooms cur") auto
    have "set (set_delete cur unv) \<subseteq> room_id ` set rooms"
      using "1.prems" by (auto simp: set_delete_def)
    from "1.IH" [OF cur cr this] cur cr show ?thesis
      by (subst dijkstraLoopR.simps) simp
  qed
qed

lemma fold_initStep:
  "fold (initStep sid) rooms (d0, p0, u0) = (d, p, u) \<Longrightarrow>
   (p0 = Map.empty \<longrightarrow> p = Map.empty)
   \<and> set u = set u0 \<union> room_id ` set rooms
   \<and> (distinct u0 \<longrightarrow> distinct u)
   \<and> (\<forall>i. d i = (if i \<in> room_id ` set rooms \<and> i \<noteq> ''__proto__''
                   then Some (if i = sid then Finite 0 else Infinity) else d0 i))"
proof (induction rooms arbitrary: d0 p0 u0)
  case Nil
  then show ?case by simp
next
  case (Cons r rooms)
  let ?d1 = "writeDistance d0 (room_id r) (if room_id r = sid then Finite 0 else Infinity)"
  let ?p1 = "p0(room_id r := None)"
  let ?u1 = "set_add (room_id r) u0"
  have "initStep sid r (d0, p0, u0) = (?d1, ?p1, ?u1)"
    by (simp add: initStep_def)
  with Cons.prems have "fold (initStep sid) rooms (?d1, ?p1, ?u1) = (d, p, u)"
    by simp
  from Cons.IH [OF this] show ?case
    by (auto simp: set_add_def writeDistance_def)
qed

lemma initSearch_props:
  assumes "initSearch sid rooms = (d, p, u)"
  shows "p = Map.empty" and "set u = room_id ` set rooms" and "distinct u"
    and "d i = (if i \<in> room_id ` set rooms \<and> i \<noteq> ''__proto__''
                then Some (if i = sid then Finite 0 else Infinity) else None)"
  using fold_initStep [OF assms [unfolded initSearch_def]] by simp_all

lemma prevRanked_empty: "prevRanked Map.empty unv"
  unfolding prevRanked_def by (intro exI [of _ "\<lambda>_. 0"] exI [of _ 0]) simp

lemma getShortestPathR_cases:
  "getShortestPathR rnd start endR allRooms = Some (createGridBasedPath start endR allRooms)
   \<or> (\<exists>path. getShortestPathR rnd start endR allRooms = Some path
         \<and> path \<noteq> [] \<and> room_id (hd path) = room_id start
         \<and> room_id (last path) = room_id endR
         \<and> set path \<subseteq> set (searchRooms start endR allRooms)
         \<and> connections start \<noteq> [] \<and> connections endR \<noteq> [])"
proof (cases "connections start = [] \<or> connections endR = []")
  case True
  then show ?thesis by (auto simp: getShortestPathR_def)
next
  case False
  let ?rooms = "searchRooms start endR allRooms"
  obtain d p u where init: "initSearch (room_id start) ?rooms = (d, p, u)"
    by (cases "initSearch (room_id start) ?rooms") auto
  from initSearch_props [OF init] have p: "p = Map.empty" and u: "set u = room_id ` set ?rooms"
    by simp_all
  from dijkstraLoopR_returns [of u ?rooms rnd "room_id endR" "(d, p)"] u
  obtain d' p' where loop: "dijkstraLoopR rnd ?rooms (room_id endR) (d, p) u = Some (d', p')"
    by auto
  from dijkstraLoopR_prevRanked [OF loop] p prevRanked_empty
  obtain unv' where "prevRanked p' unv'" by auto
  then obtain r :: "string \<Rightarrow> nat" where "\<And>n q. p' n = Some q \<Longrightarrow> r q < r n"
    unfolding prevRanked_def by blast
  from reconstruct_terminates [of p' r ?rooms "Some (room_id endR)" "[]", OF this]
  obtain path where rec: "reconstruct ?rooms p' (Some (room_id endR)) [] = Some path"
    by blast
  have gsp: "getShortestPathR rnd start endR allRooms =
      (if path = [] \<or> room_id (hd path) \<noteq> room_id start
       then Some (createGridBasedPath start endR allRooms) else Some path)"
    using False init loop rec by (simp add: getShortestPathR_def)
  show ?thesis
  proof (cases "path = [] \<or> room_id (hd path) \<noteq> room_id start")
    case True
    with gsp show ?thesis by simp
  next
    case ok: False
    from reconstruct_result [OF rec] ok
    have "set path \<subseteq> set ?rooms" "room_id (last path) = room_id endR" by auto
    with gsp ok False show ?thesis by auto
  qed
qed

lemma getShortestPath_cases:
  "getShortestPath start endR allRooms = Some (createGridBasedPath start endR allRooms)
   \<or> (\<exists>path. getShortestPath start endR allRooms = Some path
         \<and> path \<noteq> [] \<and> room_id (hd path) = room_id start
         \<and> room_id (last path) = room_id endR
         \<and> set path \<subseteq> set (searchRooms start endR allRooms)
         \<and> connections start \<noteq> [] \<and> connections endR \<noteq> [])"
  using getShortestPathR_cases [of "\<lambda>x. x" start endR allRooms] by (simp only: getShortestPathR_id)

text \<open>
  Claim C1.  For every start node, every destination node and every node list (no
  well-formedness is needed: connections may be empty, dangling or disconnected, ids may
  repeat, start may equal destination), \<open>getShortestPath\<close> returns: the main loop never
  reads an undefined room, the reconstruction loop ends, and the returned path contains
  at least one node, whichever branch produced it.
\<close>

theorem getShortestPath_total:
  "\<exists>path. getShortestPath start endR allRooms = Some path \<and> path \<noteq> []"
  using getShortestPath_cases [of start endR allRooms]
    createGridBasedPath_endpoints [of start endR allRooms] by auto


theorem getShortestPath_total_witness:
  "getShortestPath pairA pairB [pairA, pairB] = Some [pairA, pairB]"
  using getShortestPath_total [of pairA pairB "[pairA, pairB]"]
  by (simp add: getShortestPath_def searchRooms_def ensureRoom_def initSearch_def initStep_def
      set_add_def set_delete_def dijkstraLoop.simps findMin_def minStep_def findRoom_def
      relax_def readDistance_def writeDistance_def reconstruct.simps pairA_def pairB_def
      node_def)

text \<open>
  Claim C3.  For every start, destination and node list, the returned path begins with a
  node whose id is the start's id and ends with a node whose id is the destination's id,
  in the graph-search branch and in every fallback branch.
\<close>

theorem getShortestPath_endpoints:
  "\<exists>path. getShortestPath start endR allRooms = Some path \<and> path \<noteq> []
      \<and> room_id (hd path) = room_id start \<and> room_id (last path) = room_id endR"
  using getShortestPath_cases [of start endR allRooms]
    createGridBasedPath_endpoints [of start endR allRooms] by auto

theorem getShortestPath_endpoints_witness:
  "getShortestPath isolatedA isolatedB [isolatedA, isolatedB]
     = Some [isolatedA, virtualH isolatedA isolatedB,
             virtualV isolatedA isolatedB (virtualH isolatedA isolatedB), isolatedB]"
  using getShortestPath_endpoints [of isolatedA isolatedB "[isolatedA, isolatedB]"]
  by (simp add: getShortestPath_def createGridBasedPath_def horizontalLeg_def verticalLeg_def
      waypointsOf_def findWaypointNear_def horizontalObstructed_def verticalObstructed_def
      virtualH_def virtualV_def isolatedA_def isolatedB_def node_def)

section \<open>The fallback bend policy\<close>

text \<open>
  Claim C6, as the claim states it, is false: for the isolated rooms \<open>a\<close> at \<open>(0, 0)\<close> and
  \<open>b\<close> at \<open>(200, 150)\<close> in a graph without waypoints or obstructions the path has two
  points between start and destination, not one.
\<close>

theorem bend_policy_counterexample:
  "connections isolatedA = []
   \<and> 20 < \<bar>room_x isolatedB - room_x isolatedA\<bar>
   \<and> 20 < \<bar>room_y isolatedB - room_y isolatedA\<bar>
   \<and> getShortestPath isolatedA isolatedB [isolatedA, isolatedB]
       = Some [isolatedA, virtualH isolatedA isolatedB,
               virtualV isolatedA isolatedB (virtualH isolatedA isolatedB), isolatedB]
   \<and> \<not> (\<exists>h. getShortestPath isolatedA isolatedB [isolatedA, isolatedB]
               = Some [isolatedA, h, isolatedB])"
  by (simp add: getShortestPath_def createGridBasedPath_def horizontalLeg_def verticalLeg_def
      waypointsOf_def findWaypointNear_def horizontalObstructed_def verticalObstructed_def
      virtualH_def virtualV_def isolatedA_def isolatedB_def node_def)

text \<open>
  Claim C6, amended.  When \<open>start.connections\<close> is empty, \<open>|dx| > 20\<close> and \<open>|dy| > 20\<close>,
  no existing waypoint is reused for either leg and neither corridor test finds a
  blocking node, the synthesized path is \<open>[start, h, v, destination]\<close>: the bend \<open>h\<close> is a
  virtual waypoint at \<open>(destination.x, start.y)\<close>, and it is followed by a second virtual
  waypoint \<open>v\<close> at the destination's own position \<open>(destination.x, destination.y)\<close>.
\<close>

theorem bend_policy_two_virtual_points:
  assumes "connections start = []"
    and "20 < \<bar>room_x endR - room_x start\<bar>"
    and "20 < \<bar>room_y endR - room_y start\<bar>"
    and "findWaypointNear (waypointsOf allRooms) (room_x endR) (room_y start) = None"
    and "findWaypointNear (waypointsOf allRooms) (room_x endR) (room_y endR) = None"
    and "\<not> horizontalObstructed start endR allRooms"
    and "\<not> verticalObstructed start endR (virtualH start endR) allRooms"
  shows "getShortestPath start endR allRooms
           = Some [start, virtualH start endR,
                   virtualV start endR (virtualH start endR), endR]
         \<and> room_x (virtualH start endR) = room_x endR
         \<and> room_y (virtualH start endR) = room_y start
         \<and> room_x (virtualV start endR (virtualH start endR)) = room_x endR
         \<and> room_y (virtualV start endR (virtualH start endR)) = room_y endR"
proof -
  have h: "horizontalLeg start endR allRooms = [start, virtualH start endR]"
    using assms by (simp add: horizontalLeg_def Let_def)
  have xy: "room_x (virtualH start endR) = room_x endR" "room_y (virtualH start endR) = room_y start"
    by (simp_all add: virtualH_def)
  have v: "verticalLeg start endR allRooms [start, virtualH start endR]
             = [start, virtualH start endR, virtualV start endR (virtualH start endR)]"
    using assms by (simp add: verticalLeg_def Let_def xy)
  have "room_id (virtualV start endR (virtualH start endR)) \<noteq> room_id endR"
    by (simp add: virtualV_def)
  with h v have "createGridBasedPath start endR allRooms
      = [start, virtualH start endR, virtualV start endR (virtualH start endR), endR]"
    by (simp add: createGridBasedPath_def Let_def)
  with assms(1) xy show ?thesis
    by (simp add: getShortestPath_def virtualV_def)
qed

theorem bend_policy_two_virtual_points_witness:
  "connections isolatedA = []
   \<and> 20 < \<bar>room_x isolatedB - room_x isolatedA\<bar>
   \<and> 20 < \<bar>room_y isolatedB - room_y isolatedA\<bar>
   \<and> findWaypointNear (waypointsOf [isolatedA, isolatedB]) (room_x isolatedB) (room_y isolatedA) = None
   \<and> findWaypointNear (waypointsOf [isolatedA, isolatedB]) (room_x isolatedB) (room_y isolatedB) = None
   \<and> \<not> horizontalObstructed isolatedA isolatedB [isolatedA, isolatedB]
   \<and> \<not> verticalObstructed isolatedA isolatedB (virtualH isolatedA isolatedB) [isolatedA, isolatedB]
   \<and> getShortestPath isolatedA isolatedB [isolatedA, isolatedB]
       = Some [isolatedA, virtualH isolatedA isolatedB,
               virtualV isolatedA isolatedB (virtualH isolatedA isolatedB), isolatedB]
   \<and> room_x (virtualV isolatedA isolatedB (virtualH isolatedA isolatedB)) = 200
   \<and> room_y (virtualV isolatedA isolatedB (virtualH isolatedA isolatedB)) = 150"
proof -
  have h1: "connections isolatedA = []" by (simp add: isolatedA_def node_def)
  have h2: "20 < \<bar>room_x isolatedB - room_x isolatedA\<bar>"
    by (simp add: isolatedA_def isolatedB_def node_def)
  have h3: "20 < \<bar>room_y isolatedB - room_y isolatedA\<bar>"
    by (simp add: isolatedA_def isolatedB_def node_def)
  have w: "waypointsOf [isolatedA, isolatedB] = []"
    by (simp add: waypointsOf_def isolatedA_def isolatedB_def node_def)
  have h4: "findWaypointNear (waypointsOf [isolatedA, isolatedB]) (room_x isolatedB) (room_y isolatedA) = None"
    by (simp add: w findWaypointNear_def)
  have h5: "findWaypointNear (waypointsOf [isolatedA, isolatedB]) (room_x isolatedB) (room_y isolatedB) = None"
    by (simp add: w findWaypointNear_def)
  have h6: "\<not> horizontalObstructed isolatedA isolatedB [isolatedA, isolatedB]"
    by (simp add: horizontalObstructed_def)
  have h7: "\<not> verticalObstructed isolatedA isolatedB (virtualH isolatedA isolatedB) [isolatedA, isolatedB]"
    by (simp add: verticalObstructed_def)
  from bend_policy_two_virtual_points [OF h1 h2 h3 h4 h5 h6 h7] h1 h2 h3 h4 h5 h6 h7
  show ?thesis by (simp add: isolatedB_def node_def)
qed

section \<open>Virtual nodes\<close>

lemma in_set_tl: "x \<in> set (tl xs) \<Longrightarrow> x \<in> set xs"
  by (cases xs) simp_all

lemma waypointsOf_subset: "set (waypointsOf allRooms) \<subseteq> set allRooms"
  by (simp add: waypointsOf_def)

lemma findWaypointNear_mem: "findWaypointNear ws tx ty = Some w \<Longrightarrow> w \<in> set ws"
  unfolding findWaypointNear_def by (drule find_SomeD) simp

lemma isSynthesized_virtualH: "isSynthesized (virtualH start endR)"
  by (simp add: isSynthesized_def virtualH_def reservedId_def)

lemma isSynthesized_virtualV: "isSynthesized (virtualV start endR lp)"
  by (simp add: isSynthesized_def virtualV_def reservedId_def)

lemma isSynthesized_cornerNode: "isSynthesized (cornerNode a b)"
  by (simp add: isSynthesized_def cornerNode_def reservedId_def)

lemma horizontalLeg_nodes:
  "n \<in> set (horizontalLeg start endR allRooms) \<Longrightarrow>
   n = start \<or> n \<in> set allRooms \<or> isSynthesized n"
  using waypointsOf_subset [of allRooms] isSynthesized_virtualH [of start endR]
  by (auto simp: horizontalLeg_def Let_def split: option.splits if_splits
      dest!: findWaypointNear_mem findNearestWaypoint_nearest(1))

lemma findRouteThroughWaypoints_nodes:
  "n \<in> set (findRouteThroughWaypoints a b ws allRooms) \<Longrightarrow>
   n = a \<or> n = b \<or> n \<in> set ws \<or> isSynthesized n"
  using isSynthesized_cornerNode [of a b]
  by (auto simp: findRouteThroughWaypoints_def Let_def split: option.splits dest!: find_SomeD)

lemma verticalLeg_nodes:
  assumes "n \<in> set (verticalLeg start endR allRooms path)" and "path \<noteq> []"
  shows "n \<in> set path \<or> n = endR \<or> n \<in> set allRooms \<or> isSynthesized n"
proof -
  let ?lp = "last path"
  let ?ws = "waypointsOf allRooms"
  have tl: "m \<in> set (tl (findRouteThroughWaypoints ?lp endR ?ws allRooms)) \<Longrightarrow>
      m = ?lp \<or> m = endR \<or> m \<in> set ?ws \<or> isSynthesized m" for m
    using findRouteThroughWaypoints_nodes [of m ?lp endR ?ws allRooms]
    by (auto dest: in_set_tl)
  have "?lp \<in> set path" using assms(2) by simp
  with assms(1) tl [of n] waypointsOf_subset [of allRooms]
    isSynthesized_virtualV [of start endR ?lp]
  show ?thesis
    by (auto simp: verticalLeg_def Let_def split: option.splits if_splits
        dest!: findWaypointNear_mem)
qed

lemma createGridBasedPath_nodes:
  assumes "n \<in> set (createGridBasedPath start endR allRooms)"
  shows "n = start \<or> n = endR \<or> n \<in> set allRooms \<or> isSynthesized n"
proof -
  let ?h = "horizontalLeg start endR allRooms"
  have ne: "?h \<noteq> []" using horizontalLeg_shape [of start endR allRooms] by auto
  from assms have "n = endR \<or> n \<in> set (verticalLeg start endR allRooms ?h)"
    by (auto simp: createGridBasedPath_def Let_def split: if_splits)
  with verticalLeg_nodes [OF _ ne, of n start endR allRooms]
    horizontalLeg_nodes [of n start endR allRooms]
  show ?thesis by blast
qed

lemma searchRooms_subset:
  "set (searchRooms start endR allRooms) \<subseteq> insert start (insert endR (set allRooms))"
  by (auto simp: searchRooms_def ensureRoom_def)

lemma getShortestPath_nodes:
  assumes "getShortestPath start endR allRooms = Some path" and "n \<in> set path"
  shows "n = start \<or> n = endR \<or> n \<in> set allRooms \<or> isSynthesized n"
  using getShortestPath_cases [of start endR allRooms] assms
    createGridBasedPath_nodes [of n start endR allRooms]
    searchRooms_subset [of start endR allRooms]
  by auto

text \<open>
  Claim C9, as the claim states it, is false: when the node list holds a room whose id
  is \<open>virtual-h-a-b\<close>, the horizontal virtual waypoint of the route from \<open>a\<close> to \<open>b\<close> carries
  the id of that room.
\<close>

theorem virtual_node_id_clash_counterexample:
  "getShortestPath isolatedA isolatedB [isolatedA, isolatedB, clashRoom]
     = Some [isolatedA, virtualH isolatedA isolatedB,
             virtualV isolatedA isolatedB (virtualH isolatedA isolatedB), isolatedB]
   \<and> room_id (virtualH isolatedA isolatedB) = room_id clashRoom
   \<and> \<not> virtualNodesFresh isolatedA isolatedB [isolatedA, isolatedB, clashRoom]
         [isolatedA, virtualH isolatedA isolatedB,
          virtualV isolatedA isolatedB (virtualH isolatedA isolatedB), isolatedB]"
  by (simp add: getShortestPath_def createGridBasedPath_def horizontalLeg_def verticalLeg_def
      waypointsOf_def findWaypointNear_def horizontalObstructed_def verticalObstructed_def
      virtualNodesFresh_def virtualH_def virtualV_def isolatedA_def isolatedB_def clashRoom_def
      node_def)

text \<open>
  Claim C9, amended.  Every node of a returned path is the start, the destination, a
  node of the input list, or a synthesized waypoint with an empty connections list
  whose id begins with \<open>virtual-h-\<close>, \<open>virtual-v-\<close> or \<open>corner-\<close>.  When no id of the input
  list begins with one of these three prefixes, every virtual node of the path has an
  id distinct from the id of every input node, and has an empty connections list.  The
  code itself never compares a synthesized id with the input ids.
\<close>

theorem virtual_nodes_fresh_when_ids_unreserved:
  assumes "getShortestPath start endR allRooms = Some path"
    and "list_all (\<lambda>r. \<not> reservedId (room_id r)) allRooms"
  shows "virtualNodesFresh start endR allRooms path
         \<and> list_all (\<lambda>n. n \<in> set allRooms \<or> n = start \<or> n = endR \<or> isSynthesized n) path"
proof -
  have syn: "n = start \<or> n = endR \<or> n \<in> set allRooms \<or> isSynthesized n"
    if "n \<in> set path" for n
    using getShortestPath_nodes [OF assms(1) that] .
  have "room_id n \<notin> room_id ` set allRooms \<and> connections n = []"
    if "n \<in> set path" "n \<notin> set allRooms" "n \<noteq> start" "n \<noteq> endR" for n
  proof -
    from syn [OF that(1)] that have s: "isSynthesized n" by blast
    then have "reservedId (room_id n)" "connections n = []"
      by (simp_all add: isSynthesized_def)
    with assms(2) show ?thesis by (auto simp: list_all_iff)
  qed
  then have "virtualNodesFresh start endR allRooms path"
    unfolding virtualNodesFresh_def by blast
  moreover from syn have
    "list_all (\<lambda>n. n \<in> set allRooms \<or> n = start \<or> n = endR \<or> isSynthesized n) path"
    by (auto simp: list_all_iff)
  ultimately show ?thesis by blast
qed

theorem virtual_nodes_fresh_when_ids_unreserved_witness:
  "getShortestPath isolatedA isolatedB [isolatedA, isolatedB]
     = Some [isolatedA, virtualH isolatedA isolatedB,
             virtualV isolatedA isolatedB (virtualH isolatedA isolatedB), isolatedB]
   \<and> list_all (\<lambda>r. \<not> reservedId (room_id r)) [isolatedA, isolatedB]
   \<and> virtualNodesFresh isolatedA isolatedB [isolatedA, isolatedB]
        [isolatedA, virtualH isolatedA isolatedB,
         virtualV isolatedA isolatedB (virtualH isolatedA isolatedB), isolatedB]"
proof -
  have p: "getShortestPath isolatedA isolatedB [isolatedA, isolatedB]
     = Some [isolatedA, virtualH isolatedA isolatedB,
             virtualV isolatedA isolatedB (virtualH isolatedA isolatedB), isolatedB]"
    by (simp add: getShortestPath_def createGridBasedPath_def horizontalLeg_def verticalLeg_def
      waypointsOf_def findWaypointNear_def horizontalObstructed_def verticalObstructed_def
      virtualH_def virtualV_def isolatedA_def isolatedB_def node_def)
  have u: "list_all (\<lambda>r. \<not> reservedId (room_id r)) [isolatedA, isolatedB]"
    by (simp add: reservedId_def isolatedA_def isolatedB_def node_def)
  from virtual_nodes_fresh_when_ids_unreserved [OF p u] p u show ?thesis by simp
qed

section \<open>The minimum scan\<close>

lemma dist_less_trans_le:
  "\<not> dist_less b a \<Longrightarrow> \<not> dist_less c b \<Longrightarrow> \<not> dist_less c a"
  by (cases a; cases b; cases c) auto

lemma minStep_props:
  assumes "scanGood d acc"
  shows "scanGood d (minStep d u acc)"
    and "\<not> dist_less (snd acc) (snd (minStep d u acc))"
    and "readDistance d u = Some (Finite y) \<Longrightarrow> \<not> dist_less (Finite y) (snd (minStep d u acc))"
    and "fst (minStep d u acc) = fst acc \<or> fst (minStep d u acc) = Some u"
proof -
  show "scanGood d (minStep d u acc)"
    using assms by (cases "readDistance d u"; cases "the (readDistance d u)"; cases "snd acc")
      (auto simp: minStep_def scanGood_def)
  show "\<not> dist_less (snd acc) (snd (minStep d u acc))"
    by (cases "readDistance d u"; cases "the (readDistance d u)"; cases "snd acc") (auto simp: minStep_def)
  show "readDistance d u = Some (Finite y) \<Longrightarrow> \<not> dist_less (Finite y) (snd (minStep d u acc))"
    by (cases "snd acc") (auto simp: minStep_def)
  show "fst (minStep d u acc) = fst acc \<or> fst (minStep d u acc) = Some u"
    by (auto simp: minStep_def split: option.splits)
qed

lemma minScan:
  assumes "scanGood d acc"
  shows "scanGood d (fold (minStep d) us acc)
    \<and> (\<forall>u \<in> set us. \<forall>y. readDistance d u = Some (Finite y) \<longrightarrow>
          \<not> dist_less (Finite y) (snd (fold (minStep d) us acc)))
    \<and> \<not> dist_less (snd acc) (snd (fold (minStep d) us acc))
    \<and> (fst (fold (minStep d) us acc) = fst acc
         \<or> (\<exists>c \<in> set us. fst (fold (minStep d) us acc) = Some c))"
  using assms
proof (induction us arbitrary: acc)
  case Nil
  then show ?case by (cases "snd acc") auto
next
  case (Cons u us)
  let ?a1 = "minStep d u acc"
  let ?r = "fold (minStep d) us ?a1"
  note m = minStep_props [OF Cons.prems, of u]
  note ih = Cons.IH [OF m(1)]
  have "scanGood d ?r" using ih by blast
  moreover have "\<not> dist_less (Finite y) (snd ?r)" if "v \<in> set (u # us)" "readDistance d v = Some (Finite y)" for v y
  proof (cases "v \<in> set us")
    case True
    with ih that(2) show ?thesis by blast
  next
    case False
    with that have "readDistance d u = Some (Finite y)" by simp
    from m(3) [OF this] have "\<not> dist_less (Finite y) (snd ?a1)" .
    moreover from ih have "\<not> dist_less (snd ?a1) (snd ?r)" by blast
    ultimately show ?thesis by (rule dist_less_trans_le [rotated])
  qed
  moreover have "\<not> dist_less (snd acc) (snd ?r)"
  proof -
    from ih have "\<not> dist_less (snd ?a1) (snd ?r)" by blast
    with m(2) show ?thesis by (rule dist_less_trans_le [rotated])
  qed
  moreover have "fst ?r = fst acc \<or> (\<exists>c \<in> set (u # us). fst ?r = Some c)"
    using ih m(4) by auto
  ultimately show ?case by simp
qed

lemma scanGood_init: "scanGood d (None, Infinity)"
  by (simp add: scanGood_def)

lemma findMin_Some:
  assumes "findMin d us = Some c"
  shows "c \<in> set us"
    and "\<exists>x. readDistance d c = Some (Finite x) \<and> (\<forall>u \<in> set us. \<forall>y. readDistance d u = Some (Finite y) \<longrightarrow> x \<le> y)"
proof -
  let ?r = "fold (minStep d) us (None, Infinity)"
  note s = minScan [OF scanGood_init, of d us]
  from assms have f: "fst ?r = Some c" by (simp add: findMin_def)
  with s show "c \<in> set us" by auto
  from s f obtain x where r: "?r = (Some c, Finite x)" and dc: "readDistance d c = Some (Finite x)"
    by (auto simp: scanGood_def)
  have "x \<le> y" if "u \<in> set us" "readDistance d u = Some (Finite y)" for u y
  proof -
    from s that have "\<not> dist_less (Finite y) (snd ?r)" by blast
    with r show ?thesis by simp
  qed
  with dc show "\<exists>x. readDistance d c = Some (Finite x) \<and> (\<forall>u \<in> set us. \<forall>y. readDistance d u = Some (Finite y) \<longrightarrow> x \<le> y)"
    by blast
qed

lemma findMin_None:
  assumes "findMin d us = None" and "u \<in> set us"
  shows "readDistance d u \<noteq> Some (Finite y)"
proof
  assume du: "readDistance d u = Some (Finite y)"
  let ?r = "fold (minStep d) us (None, Infinity)"
  note s = minScan [OF scanGood_init, of d us]
  from assms(1) have "fst ?r = None" by (simp add: findMin_def)
  with s have "snd ?r = Infinity" by (auto simp: scanGood_def)
  moreover from s assms(2) du have "\<not> dist_less (Finite y) (snd ?r)" by blast
  ultimately show False by simp
qed

section \<open>A route from a node to itself\<close>

lemma find_app:
  "find P (xs @ ys) = (case find P xs of None \<Rightarrow> find P ys | Some x \<Rightarrow> Some x)"
  by (induction xs) simp_all

lemma id_in_ids: "q \<in> set rooms \<Longrightarrow> room_id q = i \<Longrightarrow> i \<in> room_id ` set rooms"
  by (erule rev_image_eqI) simp

lemma ensureRoom_has: "room_id r \<in> room_id ` set (ensureRoom r rooms)"
  by (auto simp: ensureRoom_def list_ex_iff intro: id_in_ids)

lemma ensureRoom_keeps: "set rooms \<subseteq> set (ensureRoom r rooms)"
  by (auto simp: ensureRoom_def)

lemma searchRooms_has_start: "room_id start \<in> room_id ` set (searchRooms start endR allRooms)"
  using ensureRoom_has [of start allRooms] ensureRoom_keeps [of "ensureRoom start allRooms" endR]
  unfolding searchRooms_def by blast

lemma findRoom_searchRooms_same:
  "findRoom (searchRooms s s allRooms) (room_id s)
     = (case findRoom allRooms (room_id s) of None \<Rightarrow> Some s | Some r \<Rightarrow> Some r)"
proof (cases "findRoom allRooms (room_id s)")
  case None
  then have "\<not> list_ex (\<lambda>q. room_id q = room_id s) allRooms"
    unfolding findRoom_None_iff list_ex_iff by (auto intro: id_in_ids)
  with None show ?thesis
    by (simp add: searchRooms_def ensureRoom_def findRoom_def find_app)
next
  case (Some r)
  then have "list_ex (\<lambda>q. room_id q = room_id s) allRooms"
    by (auto simp: list_ex_iff dest: findRoom_SomeD)
  with Some show ?thesis
    by (simp add: searchRooms_def ensureRoom_def)
qed

lemma createGridBasedPath_same: "createGridBasedPath s s allRooms = [s]"
  by (simp add: createGridBasedPath_def horizontalLeg_def verticalLeg_def Let_def)

lemma same_node_loop:
  obtains d u where "initSearch (room_id s) (searchRooms s s allRooms) = (d, Map.empty, u)"
    and "dijkstraLoop (searchRooms s s allRooms) (room_id s) (d, Map.empty) u
           = Some (d, Map.empty)"
proof -
  let ?rooms = "searchRooms s s allRooms"
  let ?sid = "room_id s"
  obtain d p u where init: "initSearch ?sid ?rooms = (d, p, u)"
    by (cases "initSearch ?sid ?rooms") auto
  note ip = initSearch_props [OF init]
  have "findMin d u = None \<or> findMin d u = Some ?sid"
  proof (cases "findMin d u")
    case None
    then show ?thesis by simp
  next
    case (Some c)
    from findMin_Some(2) [OF Some] obtain x where "readDistance d c = Some (Finite x)" by blast
    then have "d c = Some (Finite x)" by (simp add: readDistance_def split: if_splits)
    with ip(4) [of c] have "c = ?sid" by (auto split: if_splits)
    with Some show ?thesis by simp
  qed
  then have "dijkstraLoop ?rooms ?sid (d, p) u = Some (d, p)"
    by (subst dijkstraLoop.simps) auto
  with init ip(1) that show thesis by simp
qed

lemma getShortestPath_same_graph:
  assumes "connections s \<noteq> []" and "room_id s \<noteq> []"
  shows "getShortestPath s s allRooms
     = Some [case findRoom allRooms (room_id s) of None \<Rightarrow> s | Some r \<Rightarrow> r]"
proof -
  let ?rooms = "searchRooms s s allRooms"
  let ?sid = "room_id s"
  obtain d u where init: "initSearch ?sid ?rooms = (d, Map.empty, u)"
    and loop: "dijkstraLoop ?rooms ?sid (d, Map.empty) u = Some (d, Map.empty)"
    by (rule same_node_loop)
  obtain r where r: "findRoom ?rooms ?sid = Some r"
    and r': "r = (case findRoom allRooms ?sid of None \<Rightarrow> s | Some q \<Rightarrow> q)"
    using findRoom_searchRooms_same [of s allRooms] by (auto split: option.splits)
  have "reconstruct ?rooms Map.empty (Some ?sid) [] = Some [r]"
    using assms(2) r by (simp add: reconstruct.simps)
  moreover have "room_id r = ?sid" using findRoom_SomeD [OF r] by simp
  ultimately show ?thesis
    using assms(1) init loop r' by (simp add: getShortestPath_def)
qed

lemma getShortestPath_same_empty_id:
  assumes "room_id s = []"
  shows "getShortestPath s s allRooms = Some [s]"
proof (cases "connections s = []")
  case True
  then show ?thesis by (simp add: getShortestPath_def createGridBasedPath_same)
next
  case False
  let ?rooms = "searchRooms s s allRooms"
  obtain d u where init: "initSearch (room_id s) ?rooms = (d, Map.empty, u)"
    and loop: "dijkstraLoop ?rooms (room_id s) (d, Map.empty) u = Some (d, Map.empty)"
    by (rule same_node_loop)
  have "reconstruct ?rooms Map.empty (Some (room_id s)) [] = Some []"
    using assms by (simp add: reconstruct.simps)
  then show ?thesis
    using False init loop by (simp add: getShortestPath_def createGridBasedPath_same)
qed

text \<open>
  Claim C10, as the claim states it, is false: the graph search returns the node it
  finds under the start's id in the node list, which need not be the node passed as
  start.
\<close>

theorem same_node_path_counterexample:
  "getShortestPath pairA pairA [staleCopy] = Some [staleCopy]
   \<and> getShortestPath pairA pairA [staleCopy] \<noteq> Some [pairA]"
  by (simp add: getShortestPath_same_graph findRoom_def pairA_def staleCopy_def node_def)

text \<open>
  Claim C10, amended.  For every node \<open>s\<close> and every node list, \<open>getShortestPath(s, s,
  allNodes)\<close> returns a single-element path whose node has the id of \<open>s\<close>.  The path is
  exactly \<open>[s]\<close> when the first node of \<open>allNodes\<close> with the id of \<open>s\<close> is \<open>s\<close> itself, when
  no node of \<open>allNodes\<close> has that id, or when \<open>s\<close> has no connections.
\<close>

theorem same_node_path:
  "(\<exists>r. getShortestPath s s allRooms = Some [r] \<and> room_id r = room_id s)
   \<and> (findRoom allRooms (room_id s) = None \<or> findRoom allRooms (room_id s) = Some s
        \<or> connections s = [] \<longrightarrow> getShortestPath s s allRooms = Some [s])"
proof (cases "connections s = [] \<or> room_id s = []")
  case True
  have "getShortestPath s s allRooms = Some [s]"
  proof (cases "room_id s = []")
    case True
    then show ?thesis by (rule getShortestPath_same_empty_id)
  next
    case False
    with True show ?thesis by (simp add: getShortestPath_def createGridBasedPath_same)
  qed
  then show ?thesis by simp
next
  case False
  then have g: "getShortestPath s s allRooms
     = Some [case findRoom allRooms (room_id s) of None \<Rightarrow> s | Some r \<Rightarrow> r]"
    using getShortestPath_same_graph by simp
  show ?thesis
    using g False by (auto split: option.splits dest: findRoom_SomeD)
qed

theorem same_node_path_witness:
  "findRoom [pairA, pairB] (room_id pairA) = Some pairA
   \<and> getShortestPath pairA pairA [pairA, pairB] = Some [pairA]"
proof -
  have "findRoom [pairA, pairB] (room_id pairA) = Some pairA"
    by (simp add: findRoom_def)
  with same_node_path [of pairA "[pairA, pairB]"] show ?thesis by simp
qed

section \<open>Walks in the connection graph\<close>

lemma rounding_mono: "rounding rnd \<Longrightarrow> x \<le> y \<Longrightarrow> rnd x \<le> rnd y"
  by (simp add: rounding_def)

lemma rounding_zero: "rounding rnd \<Longrightarrow> rnd 0 = 0"
  by (simp add: rounding_def)

lemma rounding_idem: "rounding rnd \<Longrightarrow> rnd (rnd x) = rnd x"
  by (simp add: rounding_def)

lemma rounding_nonneg: "rounding rnd \<Longrightarrow> 0 \<le> x \<Longrightarrow> 0 \<le> rnd x"
  using rounding_mono [of rnd 0 x] by (simp add: rounding_zero)

lemma rounding_id: "rounding (\<lambda>x. x)"
  by (simp add: rounding_def)

lemma calculateDistanceR_nonneg:
  assumes "rounding rnd"
  shows "0 \<le> calculateDistanceR rnd a b"
proof -
  have "0 \<le> rnd ((rnd (room_x a - room_x b))\<^sup>2)" "0 \<le> rnd ((rnd (room_y a - room_y b))\<^sup>2)"
    by (simp_all add: rounding_nonneg [OF assms])
  then have "0 \<le> rnd (rnd ((rnd (room_x a - room_x b))\<^sup>2) + rnd ((rnd (room_y a - room_y b))\<^sup>2))"
    by (intro rounding_nonneg [OF assms]) simp
  then show ?thesis
    unfolding calculateDistanceR_def by (intro rounding_nonneg [OF assms]) simp
qed

lemma weight_nonneg: "rounding rnd \<Longrightarrow> 0 \<le> weight rnd rooms u v"
  by (simp add: weight_def calculateDistanceR_nonneg split: option.splits)

lemma walkLenFrom_inflate:
  "rounding rnd \<Longrightarrow> rnd acc = acc \<Longrightarrow> acc \<le> walkLenFrom rnd rooms acc p"
proof (induction rnd rooms acc p rule: walkLenFrom.induct)
  case (1 rnd rooms acc u v p)
  note r = "1.prems"(1)
  have "acc = rnd acc" using "1.prems" by simp
  also have "\<dots> \<le> rnd (acc + weight rnd rooms u v)"
    using weight_nonneg [OF r, of rooms u v] by (intro rounding_mono [OF r]) simp
  also have "\<dots> \<le> walkLenFrom rnd rooms (rnd (acc + weight rnd rooms u v)) (v # p)"
    by (rule "1.IH" [OF r]) (simp add: rounding_idem [OF r])
  finally show ?case by simp
qed simp_all

lemma walkLenFrom_append:
  "p1 \<noteq> [] \<Longrightarrow>
   walkLenFrom rnd rooms acc (p1 @ p2)
     = walkLenFrom rnd rooms (walkLenFrom rnd rooms acc p1) (last p1 # p2)"
proof (induction p1 arbitrary: acc rule: induct_list012)
  case 1
  then show ?case by simp
next
  case (2 u)
  show ?case by simp
next
  case (3 u v p)
  from "3.IH"(2) [of "rnd (acc + weight rnd rooms u v)"] show ?case by simp
qed

lemma walkLen_snoc:
  "p \<noteq> [] \<Longrightarrow>
   walkLen rnd rooms (p @ [v]) = rnd (walkLen rnd rooms p + weight rnd rooms (last p) v)"
  by (simp add: walkLen_def walkLenFrom_append)

lemma walkLen_single: "walkLen rnd rooms [u] = 0"
  by (simp add: walkLen_def)

lemma walkLen_nonneg: "rounding rnd \<Longrightarrow> 0 \<le> walkLen rnd rooms p"
  unfolding walkLen_def by (rule walkLenFrom_inflate) (simp_all add: rounding_zero)

lemma walkLen_prefix:
  assumes r: "rounding rnd" and ne: "p1 \<noteq> []" "p2 \<noteq> []"
  shows "rnd (walkLen rnd rooms p1 + weight rnd rooms (last p1) (hd p2))
           \<le> walkLen rnd rooms (p1 @ p2)"
proof -
  from ne(2) obtain v q where p2: "p2 = v # q" by (cases p2) auto
  let ?z = "rnd (walkLen rnd rooms p1 + weight rnd rooms (last p1) v)"
  have "walkLen rnd rooms (p1 @ p2) = walkLenFrom rnd rooms ?z (v # q)"
    by (simp add: walkLen_def walkLenFrom_append [OF ne(1)] p2)
  moreover have "?z \<le> walkLenFrom rnd rooms ?z (v # q)"
    by (rule walkLenFrom_inflate [OF r]) (simp add: rounding_idem [OF r])
  ultimately show ?thesis by (simp add: p2)
qed

lemma edge_found: "edge rooms u v \<Longrightarrow> findRoom rooms u \<noteq> None \<and> findRoom rooms v \<noteq> None"
  by (auto simp: edge_def split: option.splits)

lemma walk_nodes: "walk rooms p \<Longrightarrow> v \<in> set p \<Longrightarrow> findRoom rooms v \<noteq> None"
  by (induction rooms p rule: walk.induct) (auto dest: edge_found)

lemma walk_append:
  "p1 \<noteq> [] \<Longrightarrow> p2 \<noteq> [] \<Longrightarrow>
   walk rooms (p1 @ p2) = (walk rooms p1 \<and> edge rooms (last p1) (hd p2) \<and> walk rooms p2)"
proof (induction rooms p1 rule: walk.induct)
  case (1 rooms)
  then show ?case by simp
next
  case (2 rooms u)
  then obtain b q where "p2 = b # q" by (cases p2) auto
  then show ?case by (auto dest: edge_found)
next
  case (3 rooms u v p)
  then show ?case by auto
qed

lemma walk_snoc:
  assumes "walk rooms p" and "edge rooms (last p) v"
  shows "walk rooms (p @ [v])"
    and "walkLen rnd rooms (p @ [v]) = rnd (walkLen rnd rooms p + weight rnd rooms (last p) v)"
    and "hd (p @ [v]) = hd p" and "last (p @ [v]) = v"
proof -
  from assms(1) have ne: "p \<noteq> []" by (cases p) auto
  from edge_found [OF assms(2)] have "walk rooms [v]" by simp
  with walk_append [OF ne, of "[v]" rooms] assms show "walk rooms (p @ [v])" by simp
  from walkLen_snoc [OF ne]
  show "walkLen rnd rooms (p @ [v]) = rnd (walkLen rnd rooms p + weight rnd rooms (last p) v)" .
  from ne show "hd (p @ [v]) = hd p" by simp
  show "last (p @ [v]) = v" by simp
qed

lemma walk_crossing:
  assumes "p \<noteq> []" and "hd p \<in> S" and "last p \<notin> S"
  shows "\<exists>p1 p2. p = p1 @ p2 \<and> p1 \<noteq> [] \<and> p2 \<noteq> [] \<and> hd p1 = hd p
           \<and> last p1 \<in> S \<and> hd p2 \<notin> S"
  using assms
proof (induction p)
  case Nil
  then show ?case by simp
next
  case (Cons a p)
  from Cons.prems have pne: "p \<noteq> []" by (cases p) auto
  show ?case
  proof (cases "hd p \<in> S")
    case False
    have "a # p = [a] @ p \<and> [a] \<noteq> [] \<and> p \<noteq> [] \<and> hd [a] = hd (a # p)
        \<and> last [a] \<in> S \<and> hd p \<notin> S"
      using Cons.prems pne False by simp
    then show ?thesis by blast
  next
    case True
    from Cons.prems pne have "last p \<notin> S" by simp
    from Cons.IH [OF pne True this] obtain p1 p2 where
      "p = p1 @ p2" "p1 \<noteq> []" "p2 \<noteq> []" "last p1 \<in> S" "hd p2 \<notin> S" by blast
    then have "a # p = (a # p1) @ p2 \<and> a # p1 \<noteq> [] \<and> p2 \<noteq> [] \<and> hd (a # p1) = hd (a # p)
        \<and> last (a # p1) \<in> S \<and> hd p2 \<notin> S" by simp
    then show ?thesis by blast
  qed
qed


section \<open>Relaxation\<close>

lemma readDistance_plain: "d ''__proto__'' = None \<Longrightarrow> readDistance d = d"
  by (auto simp: readDistance_def)

lemma relaxR_step:
  assumes "findRoom rooms cur = Some cr" and "fst dp cur = Some (Finite dc)"
    and "fst dp ''__proto__'' = None"
  shows "relaxR rnd rooms cur cr unv nb dp =
    (if nb \<in> set unv \<and> findRoom rooms nb \<noteq> None
        \<and> (\<exists>dn. fst dp nb = Some dn \<and> dist_less (Finite (rnd (dc + weight rnd rooms cur nb))) dn)
     then ((fst dp)(nb \<mapsto> Finite (rnd (dc + weight rnd rooms cur nb))), (snd dp)(nb \<mapsto> cur))
     else dp)"
proof -
  from assms(3) have rd: "readDistance (fst dp) = fst dp"
    by (rule readDistance_plain [of "fst dp"])
  show ?thesis
  proof (cases "nb = ''__proto__''")
    case True
    with assms(3) show ?thesis
      by (auto simp: relaxR_def rd split: option.splits)
  next
    case False
    with assms(1,2) show ?thesis
      by (auto simp: relaxR_def rd writeDistance_def weight_def Let_def split: option.splits)
  qed
qed

lemma relaxR_cases:
  fixes nb :: string and rnd :: "real \<Rightarrow> real"
  assumes cr: "findRoom rooms cur = Some cr" and dc: "fst dp cur = Some (Finite dc)"
    and cur: "cur \<notin> set unv" and pr: "fst dp ''__proto__'' = None"
  defines "dp' \<equiv> relaxR rnd rooms cur cr unv nb dp"
  shows "fst dp' cur = Some (Finite dc)"
    and "fst dp' ''__proto__'' = None"
    and "v \<noteq> nb \<Longrightarrow> fst dp' v = fst dp v \<and> snd dp' v = snd dp v"
    and "(fst dp' nb = fst dp nb \<and> snd dp' nb = snd dp nb
           \<and> (nb \<in> set unv \<and> findRoom rooms nb \<noteq> None \<longrightarrow>
                (\<forall>dn. fst dp nb = Some dn \<longrightarrow> \<not> dist_less (Finite (rnd (dc + weight rnd rooms cur nb))) dn)))
         \<or> (nb \<in> set unv \<and> findRoom rooms nb \<noteq> None
             \<and> fst dp' nb = Some (Finite (rnd (dc + weight rnd rooms cur nb))) \<and> snd dp' nb = Some cur
             \<and> (\<exists>dn. fst dp nb = Some dn \<and> dist_less (Finite (rnd (dc + weight rnd rooms cur nb))) dn))"
proof -
  note st = relaxR_step [OF cr dc pr, of rnd unv nb]
  show "fst dp' cur = Some (Finite dc)"
    using cur dc unfolding dp'_def st by auto
  show "fst dp' ''__proto__'' = None"
    using pr unfolding dp'_def st by auto
  show "v \<noteq> nb \<Longrightarrow> fst dp' v = fst dp v \<and> snd dp' v = snd dp v"
    unfolding dp'_def st by auto
  show "(fst dp' nb = fst dp nb \<and> snd dp' nb = snd dp nb
           \<and> (nb \<in> set unv \<and> findRoom rooms nb \<noteq> None \<longrightarrow>
                (\<forall>dn. fst dp nb = Some dn \<longrightarrow> \<not> dist_less (Finite (rnd (dc + weight rnd rooms cur nb))) dn)))
         \<or> (nb \<in> set unv \<and> findRoom rooms nb \<noteq> None
             \<and> fst dp' nb = Some (Finite (rnd (dc + weight rnd rooms cur nb))) \<and> snd dp' nb = Some cur
             \<and> (\<exists>dn. fst dp nb = Some dn \<and> dist_less (Finite (rnd (dc + weight rnd rooms cur nb))) dn))"
    unfolding dp'_def st by auto
qed

lemma not_less_Finite: "\<not> dist_less (Finite z) dn \<Longrightarrow> \<exists>x. dn = Finite x \<and> x \<le> z"
  by (cases dn) auto

lemma not_less_entryAtMost: "e = Some dn \<Longrightarrow> \<not> dist_less (Finite z) dn \<Longrightarrow> entryAtMost e z"
  by (cases dn) (auto simp: entryAtMost_def)

lemma less_entryAtMost: "dist_less (Finite z) dn \<Longrightarrow> entryAtMost (Some dn) y \<Longrightarrow> z \<le> y"
  by (cases dn) (auto simp: entryAtMost_def)

lemma fold_relaxR:
  assumes cr: "findRoom rooms cur = Some cr" and cur: "cur \<notin> set unv"
    and dc: "fst dp cur = Some (Finite dc)" and pr: "fst dp ''__proto__'' = None"
  shows "relaxedFrom rnd rooms cur dc unv nbs dp (fold (relaxR rnd rooms cur cr unv) nbs dp)"
  using dc pr
proof (induction nbs arbitrary: dp)
  case Nil
  then show ?case by (simp add: relaxedFrom_def)
next
  case (Cons nb nbs)
  let ?w = "\<lambda>v. rnd (dc + weight rnd rooms cur v)"
  let ?dp1 = "relaxR rnd rooms cur cr unv nb dp"
  let ?dp' = "fold (relaxR rnd rooms cur cr unv) nbs ?dp1"
  note rc0 = relaxR_cases [OF cr Cons.prems(1) cur Cons.prems(2), where nb = nb and rnd = rnd]
  note rc = rc0(1) rc0(3) rc0(4)
  from Cons.IH [OF rc0(1) rc0(2)] have ih: "relaxedFrom rnd rooms cur dc unv nbs ?dp1 ?dp'" .
  have ih1: "fst ?dp' cur = Some (Finite dc)" using ih by (simp add: relaxedFrom_def)
  have ih0: "fst ?dp' ''__proto__'' = None" using ih by (simp add: relaxedFrom_def)
  have ih2: "(fst ?dp' v = fst ?dp1 v \<and> snd ?dp' v = snd ?dp1 v)
             \<or> (v \<in> set unv \<and> v \<in> set nbs \<and> findRoom rooms v \<noteq> None
                 \<and> fst ?dp' v = Some (Finite (?w v)) \<and> snd ?dp' v = Some cur
                 \<and> (\<exists>dn. fst ?dp1 v = Some dn \<and> dist_less (Finite (?w v)) dn))" for v
    using ih unfolding relaxedFrom_def by blast
  have ih3: "v \<in> set nbs \<Longrightarrow> v \<in> set unv \<Longrightarrow> findRoom rooms v \<noteq> None \<Longrightarrow> fst ?dp1 v \<noteq> None
      \<Longrightarrow> entryAtMost (fst ?dp' v) (?w v)" for v
    using ih unfolding relaxedFrom_def by blast
  have two: "(fst ?dp' v = fst dp v \<and> snd ?dp' v = snd dp v)
             \<or> (v \<in> set unv \<and> v \<in> set (nb # nbs) \<and> findRoom rooms v \<noteq> None
                 \<and> fst ?dp' v = Some (Finite (?w v)) \<and> snd ?dp' v = Some cur
                 \<and> (\<exists>dn. fst dp v = Some dn \<and> dist_less (Finite (?w v)) dn))" for v
  proof (cases "v = nb")
    case False
    from rc(2) [OF False] ih2 [of v] show ?thesis by auto
  next
    case True
    from rc(3) show ?thesis
    proof
      assume a: "fst ?dp1 nb = fst dp nb \<and> snd ?dp1 nb = snd dp nb
           \<and> (nb \<in> set unv \<and> findRoom rooms nb \<noteq> None \<longrightarrow>
                (\<forall>dn. fst dp nb = Some dn \<longrightarrow> \<not> dist_less (Finite (?w nb)) dn))"
      with ih2 [of nb] True show ?thesis by auto
    next
      assume b: "nb \<in> set unv \<and> findRoom rooms nb \<noteq> None
             \<and> fst ?dp1 nb = Some (Finite (?w nb)) \<and> snd ?dp1 nb = Some cur
             \<and> (\<exists>dn. fst dp nb = Some dn \<and> dist_less (Finite (?w nb)) dn)"
      from ih2 [of nb] have "fst ?dp' nb = fst ?dp1 nb \<and> snd ?dp' nb = snd ?dp1 nb"
        using b by auto
      with b True show ?thesis by auto
    qed
  qed
  have three: "entryAtMost (fst ?dp' v) (?w v)"
    if v: "v \<in> set (nb # nbs)" "v \<in> set unv" "findRoom rooms v \<noteq> None" "fst dp v \<noteq> None" for v
  proof -
    have one: "fst ?dp1 v \<noteq> None"
      using rc(2) [where v = v] rc(3) v(4) by (cases "v = nb") auto
    show ?thesis
    proof (cases "v \<in> set nbs")
      case True
      from ih3 [OF True v(2,3) one] show ?thesis .
    next
      case False
      with v(1) have vn: "v = nb" by simp
      have "entryAtMost (fst ?dp1 nb) (?w nb)"
        using rc(3) v vn by (auto simp: entryAtMost_def dest: not_less_Finite)
      moreover from ih2 [of nb] have "fst ?dp' nb = fst ?dp1 nb \<or> fst ?dp' nb = Some (Finite (?w nb))"
        by auto
      ultimately show ?thesis using vn by (auto simp: entryAtMost_def)
    qed
  qed
  show ?case
    unfolding relaxedFrom_def fold_simps using ih1 ih0 two three by blast
qed

section \<open>The invariant of the search\<close>

lemma searchInvD:
  assumes "searchInv rnd rooms sid d prev unv"
  shows "set unv \<subseteq> room_id ` set rooms"
    and "sid \<in> room_id ` set rooms"
    and "v \<in> room_id ` set rooms \<Longrightarrow> d v \<noteq> None"
    and "d sid = Some (Finite 0)"
    and "visited rooms unv \<noteq> {} \<Longrightarrow> sid \<in> visited rooms unv"
    and "v \<in> visited rooms unv \<Longrightarrow> \<exists>x. d v = Some (Finite x)"
    and "d v = Some (Finite x) \<Longrightarrow>
            (v = sid \<and> x = 0 \<and> prev v = None)
            \<or> (\<exists>u y. prev v = Some u \<and> u \<in> visited rooms unv \<and> d u = Some (Finite y)
                  \<and> edge rooms u v \<and> x = rnd (y + weight rnd rooms u v))"
    and "v \<in> visited rooms unv \<Longrightarrow> d v = Some (Finite x) \<Longrightarrow> walk rooms p \<Longrightarrow> hd p = sid
           \<Longrightarrow> last p = v \<Longrightarrow> x \<le> walkLen rnd rooms p"
    and "u \<in> visited rooms unv \<Longrightarrow> v \<in> set unv \<Longrightarrow> edge rooms u v \<Longrightarrow> d u = Some (Finite y)
           \<Longrightarrow> entryAtMost (d v) (rnd (y + weight rnd rooms u v))"
    and "prev v = Some u \<Longrightarrow> \<exists>x. d v = Some (Finite x)"
    and "d ''__proto__'' = None"
  using assms unfolding searchInv_def by blast+

lemma searchInvI:
  assumes "set unv \<subseteq> room_id ` set rooms"
    and "sid \<in> room_id ` set rooms"
    and "\<And>v. v \<in> room_id ` set rooms \<Longrightarrow> d v \<noteq> None"
    and "d sid = Some (Finite 0)"
    and "visited rooms unv \<noteq> {} \<Longrightarrow> sid \<in> visited rooms unv"
    and "\<And>v. v \<in> visited rooms unv \<Longrightarrow> \<exists>x. d v = Some (Finite x)"
    and "\<And>v x. d v = Some (Finite x) \<Longrightarrow>
            (v = sid \<and> x = 0 \<and> prev v = None)
            \<or> (\<exists>u y. prev v = Some u \<and> u \<in> visited rooms unv \<and> d u = Some (Finite y)
                  \<and> edge rooms u v \<and> x = rnd (y + weight rnd rooms u v))"
    and "\<And>v x p. v \<in> visited rooms unv \<Longrightarrow> d v = Some (Finite x) \<Longrightarrow> walk rooms p
           \<Longrightarrow> hd p = sid \<Longrightarrow> last p = v \<Longrightarrow> x \<le> walkLen rnd rooms p"
    and "\<And>u v y. u \<in> visited rooms unv \<Longrightarrow> v \<in> set unv \<Longrightarrow> edge rooms u v
           \<Longrightarrow> d u = Some (Finite y) \<Longrightarrow> entryAtMost (d v) (rnd (y + weight rnd rooms u v))"
    and "\<And>v u. prev v = Some u \<Longrightarrow> \<exists>x. d v = Some (Finite x)"
    and "d ''__proto__'' = None"
  shows "searchInv rnd rooms sid d prev unv"
  unfolding searchInv_def
proof (intro conjI ballI allI impI, goal_cases)
  case 1
  show ?case by (rule assms(1))
next
  case 2
  show ?case by (rule assms(2))
next
  case (3 v)
  then show ?case by (rule assms(3))
next
  case 4
  show ?case by (rule assms(4))
next
  case 5
  then show ?case by (rule assms(5))
next
  case (6 v)
  then show ?case by (rule assms(6))
next
  case (7 v x)
  then show ?case by (rule assms(7))
next
  case (8 v x p)
  then show ?case using assms(8) [of v x p] by simp
next
  case (9 u v y)
  then show ?case using assms(9) [of u v y] by simp
next
  case (10 v u)
  then show ?case by (rule assms(10))
next
  case 11
  show ?case by (rule assms(11))
qed

lemma searchInv_init:
  assumes init: "initSearch sid rooms = (d, p, u)" and sid: "sid \<in> room_id ` set rooms"
    and np: "''__proto__'' \<notin> room_id ` set rooms"
  shows "searchInv rnd rooms sid d p u"
proof (rule searchInvI)
  note ip = initSearch_props [OF init]
  have vis: "visited rooms u = {}" by (simp add: visited_def ip(2))
  show "set u \<subseteq> room_id ` set rooms" by (simp add: ip(2))
  show "sid \<in> room_id ` set rooms" by (rule sid)
  show "d v \<noteq> None" if "v \<in> room_id ` set rooms" for v
  proof -
    from that np have "v \<noteq> ''__proto__''" by blast
    with that ip(4) [of v] show ?thesis by simp
  qed
  show "d sid = Some (Finite 0)"
  proof -
    from sid np have "sid \<noteq> ''__proto__''" by blast
    with sid ip(4) [of sid] show ?thesis by simp
  qed
  show "d ''__proto__'' = None" using ip(4) [of "''__proto__''"] by simp
  show "sid \<in> visited rooms u" if "visited rooms u \<noteq> {}"
    using that vis by simp
  show "\<exists>x. d v = Some (Finite x)" if "v \<in> visited rooms u" for v
    using that vis by simp
  show "(v = sid \<and> x = 0 \<and> p v = None)
            \<or> (\<exists>u' y. p v = Some u' \<and> u' \<in> visited rooms u \<and> d u' = Some (Finite y)
                  \<and> edge rooms u' v \<and> x = rnd (y + weight rnd rooms u' v))"
    if "d v = Some (Finite x)" for v x
  proof -
    from that ip(4) [of v] have "v = sid \<and> x = 0" by (auto split: if_splits)
    then show ?thesis by (simp add: ip(1))
  qed
  show "x \<le> walkLen rnd rooms q" if "v \<in> visited rooms u" for v x q
    using that vis by simp
  show "entryAtMost (d v) (rnd (y + weight rnd rooms u' v))" if "u' \<in> visited rooms u" for u' v y
    using that vis by simp
  show "\<exists>x. d v = Some (Finite x)" if "p v = Some u'" for v u'
    using that by (simp add: ip(1))
qed

lemma walk_head_found: "walk rooms p \<Longrightarrow> findRoom rooms (hd p) \<noteq> None"
  by (rule walk_nodes [of rooms p "hd p"]) (cases p; simp)+

lemma searchInv_min_bound:
  assumes r: "rounding rnd" and inv: "searchInv rnd rooms sid d prev unv"
    and min: "findMin d unv = Some cur"
    and dcur: "d cur = Some (Finite x)"
    and p: "walk rooms p" "hd p = sid" "last p = cur"
  shows "x \<le> walkLen rnd rooms p"
proof -
  note I = searchInvD [OF inv]
  note rd = readDistance_plain [of d, OF I(11)]
  from findMin_Some [OF min] dcur have cur: "cur \<in> set unv"
    and least: "\<And>u y. u \<in> set unv \<Longrightarrow> d u = Some (Finite y) \<Longrightarrow> x \<le> y"
    by (auto simp: rd)
  show ?thesis
  proof (cases "sid \<in> set unv")
    case True
    from least [OF True I(4)] have "x \<le> 0" .
    with walkLen_nonneg [OF r, of rooms p] show ?thesis by simp
  next
    case False
    with I(2) have sv: "sid \<in> visited rooms unv" by (simp add: visited_def)
    from p(1) have pne: "p \<noteq> []" by (cases p) auto
    from cur have "cur \<notin> visited rooms unv" by (simp add: visited_def)
    with walk_crossing [OF pne, of "visited rooms unv"] sv p(2,3)
    obtain p1 p2 where sp: "p = p1 @ p2" "p1 \<noteq> []" "p2 \<noteq> []" "hd p1 = sid"
      and a: "last p1 \<in> visited rooms unv" and b: "hd p2 \<notin> visited rooms unv"
      by auto
    from p(1) walk_append [OF sp(2,3), of rooms] sp(1)
    have w1: "walk rooms p1" and e: "edge rooms (last p1) (hd p2)" and w2: "walk rooms p2"
      by simp_all
    from walk_head_found [OF w2] have "hd p2 \<in> room_id ` set rooms"
      by (simp add: findRoom_None_iff)
    with b have bu: "hd p2 \<in> set unv" by (simp add: visited_def)
    from I(6) [OF a] obtain y where da: "d (last p1) = Some (Finite y)" by blast
    from I(8) [OF a da w1 sp(4)] have y: "y \<le> walkLen rnd rooms p1" by simp
    from I(9) [OF a bu e da] obtain z where db: "d (hd p2) = Some (Finite z)"
      and z: "z \<le> rnd (y + weight rnd rooms (last p1) (hd p2))" by (auto simp: entryAtMost_def)
    from least [OF bu db] have "x \<le> z" .
    also note z
    also have "rnd (y + weight rnd rooms (last p1) (hd p2))
        \<le> rnd (walkLen rnd rooms p1 + weight rnd rooms (last p1) (hd p2))"
      using y by (intro rounding_mono [OF r]) simp
    also have "\<dots> \<le> walkLen rnd rooms p"
      unfolding sp(1) by (rule walkLen_prefix [OF r sp(2,3)])
    finally show ?thesis .
  qed
qed

lemma edge_from:
  "findRoom rooms u = Some ru \<Longrightarrow>
   edge rooms u v = (v \<in> set (connections ru) \<and> findRoom rooms v \<noteq> None)"
  by (simp add: edge_def)

lemma searchInv_step:
  assumes r: "rounding rnd" and inv: "searchInv rnd rooms sid d prev unv"
    and min: "findMin d unv = Some cur"
    and cr: "findRoom rooms cur = Some cr"
    and res: "fold (relaxR rnd rooms cur cr (set_delete cur unv)) (connections cr) (d, prev) = (d', prev')"
  shows "searchInv rnd rooms sid d' prev' (set_delete cur unv)"
proof -
  note I = searchInvD [OF inv]
  let ?unv' = "set_delete cur unv"
  let ?V = "visited rooms unv"
  let ?V' = "visited rooms ?unv'"
  note rd = readDistance_plain [of d, OF I(11)]
  from findMin_Some [OF min] obtain dc where cur: "cur \<in> set unv"
    and dc: "d cur = Some (Finite dc)" by (auto simp: rd)
  have unv': "set ?unv' = set unv - {cur}" by (auto simp: set_delete_def)
  have curK: "cur \<in> room_id ` set rooms" using cur I(1) by blast
  have V': "?V' = insert cur ?V" using curK unv' by (auto simp: visited_def)
  have notin: "cur \<notin> set ?unv'" by (simp add: unv')
  from fold_relaxR [OF cr notin, of "(d, prev)" dc rnd "connections cr"] dc I(11) res
  have R: "relaxedFrom rnd rooms cur dc ?unv' (connections cr) (d, prev) (d', prev')" by simp
  have R1: "d' cur = Some (Finite dc)" using R by (simp add: relaxedFrom_def)
  have R0: "d' ''__proto__'' = None" using R by (simp add: relaxedFrom_def)
  have R2: "(d' v = d v \<and> prev' v = prev v)
      \<or> (v \<in> set ?unv' \<and> v \<in> set (connections cr) \<and> findRoom rooms v \<noteq> None
           \<and> d' v = Some (Finite (rnd (dc + weight rnd rooms cur v))) \<and> prev' v = Some cur
           \<and> (\<exists>dn. d v = Some dn \<and> dist_less (Finite (rnd (dc + weight rnd rooms cur v))) dn))" for v
    using R unfolding relaxedFrom_def by simp
  have R3: "entryAtMost (d' v) (rnd (dc + weight rnd rooms cur v))"
    if "v \<in> set (connections cr)" "v \<in> set ?unv'" "findRoom rooms v \<noteq> None" "d v \<noteq> None" for v
    using R that unfolding relaxedFrom_def by simp
  have D1: "d' v = d v \<and> prev' v = prev v" if "v \<notin> set ?unv'" for v
    using R2 [of v] that by blast
  have D3: "entryAtMost (d' v) z" if "entryAtMost (d v) z" for v z
  proof -
    from R2 [of v] show ?thesis
    proof
      assume "d' v = d v \<and> prev' v = prev v"
      with that show ?thesis by simp
    next
      assume u: "v \<in> set ?unv' \<and> v \<in> set (connections cr) \<and> findRoom rooms v \<noteq> None
           \<and> d' v = Some (Finite (rnd (dc + weight rnd rooms cur v))) \<and> prev' v = Some cur
           \<and> (\<exists>dn. d v = Some dn \<and> dist_less (Finite (rnd (dc + weight rnd rooms cur v))) dn)"
      then obtain dn where "d v = Some dn" "dist_less (Finite (rnd (dc + weight rnd rooms cur v))) dn"
        by blast
      with that have "rnd (dc + weight rnd rooms cur v) \<le> z" by (auto dest: less_entryAtMost)
      with u show ?thesis by (simp add: entryAtMost_def)
    qed
  qed
  have sidV': "sid \<notin> set ?unv'"
  proof (cases "?V = {}")
    case False
    from I(5) [OF False] show ?thesis by (simp add: visited_def unv')
  next
    case True
    from I(7) [OF dc] True have "cur = sid" by auto
    with notin show ?thesis by simp
  qed
  have VD: "d' v = d v \<and> prev' v = prev v" if "v \<in> ?V" for v
    using that D1 [of v] by (simp add: visited_def unv')
  show ?thesis
  proof (rule searchInvI)
    show "set ?unv' \<subseteq> room_id ` set rooms" using I(1) unv' by blast
    show "sid \<in> room_id ` set rooms" by (rule I(2))
    show "d' v \<noteq> None" if "v \<in> room_id ` set rooms" for v
      using R2 [of v] I(3) [OF that] by auto
    show "d' sid = Some (Finite 0)" using D1 [OF sidV'] I(4) by simp
    show "sid \<in> ?V'" if "?V' \<noteq> {}"
      using sidV' I(2) by (simp add: visited_def)
    show "\<exists>x. d' v = Some (Finite x)" if "v \<in> ?V'" for v
    proof (cases "v = cur")
      case True
      with R1 show ?thesis by simp
    next
      case False
      with that V' have "v \<in> ?V" by simp
      with I(6) [OF this] VD [OF this] show ?thesis by simp
    qed
    show "(v = sid \<and> x = 0 \<and> prev' v = None)
            \<or> (\<exists>u y. prev' v = Some u \<and> u \<in> ?V' \<and> d' u = Some (Finite y)
                  \<and> edge rooms u v \<and> x = rnd (y + weight rnd rooms u v))"
      if dv: "d' v = Some (Finite x)" for v x
    proof -
      from R2 [of v] show ?thesis
      proof
        assume same: "d' v = d v \<and> prev' v = prev v"
        with dv have "d v = Some (Finite x)" by simp
        from I(7) [OF this] show ?thesis
        proof
          assume "v = sid \<and> x = 0 \<and> prev v = None"
          with same have "v = sid \<and> x = 0 \<and> prev' v = None" by auto
          then show ?thesis by (rule disjI1)
        next
          assume "\<exists>u y. prev v = Some u \<and> u \<in> ?V \<and> d u = Some (Finite y)
                  \<and> edge rooms u v \<and> x = rnd (y + weight rnd rooms u v)"
          then obtain u y where u: "prev v = Some u" "u \<in> ?V" "d u = Some (Finite y)"
            "edge rooms u v" "x = rnd (y + weight rnd rooms u v)" by blast
          from VD [OF u(2)] u(3) have "d' u = Some (Finite y)" by simp
          with u same V' have "prev' v = Some u \<and> u \<in> ?V' \<and> d' u = Some (Finite y)
                  \<and> edge rooms u v \<and> x = rnd (y + weight rnd rooms u v)" by simp
          then show ?thesis by blast
        qed
      next
        assume upd: "v \<in> set ?unv' \<and> v \<in> set (connections cr) \<and> findRoom rooms v \<noteq> None
           \<and> d' v = Some (Finite (rnd (dc + weight rnd rooms cur v))) \<and> prev' v = Some cur
           \<and> (\<exists>dn. d v = Some dn \<and> dist_less (Finite (rnd (dc + weight rnd rooms cur v))) dn)"
        with dv have "x = rnd (dc + weight rnd rooms cur v)" by simp
        moreover from upd have "edge rooms cur v" by (simp add: edge_from [OF cr])
        ultimately have "prev' v = Some cur \<and> cur \<in> ?V' \<and> d' cur = Some (Finite dc)
                  \<and> edge rooms cur v \<and> x = rnd (dc + weight rnd rooms cur v)"
          using upd V' R1 by simp
        then show ?thesis by blast
      qed
    qed
    show "x \<le> walkLen rnd rooms p"
      if "v \<in> ?V'" "d' v = Some (Finite x)" "walk rooms p" "hd p = sid" "last p = v" for v x p
    proof (cases "v = cur")
      case True
      with that(2) R1 have "x = dc" by simp
      with searchInv_min_bound [OF r inv min dc that(3,4)] that(5) True show ?thesis by simp
    next
      case False
      with that(1) V' have v: "v \<in> ?V" by simp
      with VD [OF v] that(2) have "d v = Some (Finite x)" by simp
      from I(8) [OF v this that(3,4,5)] show ?thesis .
    qed
    show "entryAtMost (d' v) (rnd (y + weight rnd rooms u v))"
      if "u \<in> ?V'" "v \<in> set ?unv'" "edge rooms u v" "d' u = Some (Finite y)" for u v y
    proof (cases "u = cur")
      case True
      with that(4) R1 have y: "y = dc" by simp
      from that(3) True have "v \<in> set (connections cr)" "findRoom rooms v \<noteq> None"
        by (simp_all add: edge_from [OF cr])
      moreover from this(2) have "d v \<noteq> None" using I(3) [of v] by (simp add: findRoom_None_iff)
      ultimately show ?thesis using R3 [of v] that(2) y True by simp
    next
      case False
      with that(1) V' have u: "u \<in> ?V" by simp
      from VD [OF u] that(4) have du: "d u = Some (Finite y)" by simp
      from that(2) have "v \<in> set unv" by (simp add: unv')
      from D3 [OF I(9) [OF u this that(3) du]] show ?thesis .
    qed
    show "\<exists>x. d' v = Some (Finite x)" if "prev' v = Some u" for v u
    proof -
      from R2 [of v] show ?thesis
      proof
        assume "d' v = d v \<and> prev' v = prev v"
        with that I(10) [of v u] show ?thesis by simp
      next
        assume "v \<in> set ?unv' \<and> v \<in> set (connections cr) \<and> findRoom rooms v \<noteq> None
           \<and> d' v = Some (Finite (rnd (dc + weight rnd rooms cur v))) \<and> prev' v = Some cur
           \<and> (\<exists>dn. d v = Some dn \<and> dist_less (Finite (rnd (dc + weight rnd rooms cur v))) dn)"
        then show ?thesis by simp
      qed
    qed
    show "d' ''__proto__'' = None" by (rule R0)
  qed
qed

lemma dijkstraLoopR_inv:
  "dijkstraLoopR rnd rooms eid dp unv = Some dp' \<Longrightarrow> rounding rnd \<Longrightarrow>
   searchInv rnd rooms sid (fst dp) (snd dp) unv \<Longrightarrow> prevRanked (snd dp) unv \<Longrightarrow>
   \<exists>unv'. searchInv rnd rooms sid (fst dp') (snd dp') unv' \<and> prevRanked (snd dp') unv'
      \<and> (unv' = [] \<or> findMin (fst dp') unv' = None \<or> findMin (fst dp') unv' = Some eid)"
proof (induction rnd rooms eid dp unv rule: dijkstraLoopR.induct)
  case (1 rnd rooms eid dp unv)
  show ?case
  proof (cases "unv = [] \<or> findMin (fst dp) unv = None \<or> findMin (fst dp) unv = Some eid")
    case True
    with "1.prems"(1) have "dp' = dp"
      by (subst (asm) dijkstraLoopR.simps) (auto split: option.splits if_splits)
    with "1.prems" True show ?thesis by blast
  next
    case False
    then obtain cur where cur: "unv \<noteq> []" "findMin (fst dp) unv = Some cur" "cur \<noteq> eid"
      by auto
    let ?unv' = "set_delete cur unv"
    from cur "1.prems"(1) obtain cr where cr: "findRoom rooms cur = Some cr"
      and rec: "dijkstraLoopR rnd rooms eid
                  (fold (relaxR rnd rooms cur cr ?unv') (connections cr) dp) ?unv' = Some dp'"
      by (subst (asm) dijkstraLoopR.simps) (auto split: option.splits)
    let ?dp1 = "fold (relaxR rnd rooms cur cr ?unv') (connections cr) dp"
    have "fold (relaxR rnd rooms cur cr ?unv') (connections cr) (fst dp, snd dp) = (fst ?dp1, snd ?dp1)"
      by simp
    from searchInv_step [OF "1.prems"(2,3) cur(2) cr this]
    have inv1: "searchInv rnd rooms sid (fst ?dp1) (snd ?dp1) ?unv'" .
    from findMin_mem [OF cur(2)] have "cur \<in> set unv" .
    from prevRanked_step [OF "1.prems"(4) this]
    have rk1: "prevRanked (snd ?dp1) ?unv'" .
    from "1.IH" [OF cur cr rec "1.prems"(2) inv1 rk1] show ?thesis .
  qed
qed

lemma search_exit_bound:
  assumes r: "rounding rnd" and inv: "searchInv rnd rooms sid d prev unv"
    and exit: "unv = [] \<or> findMin d unv = None \<or> findMin d unv = Some eid"
    and q: "walk rooms q" "hd q = sid" "last q = eid"
  shows "\<exists>x. d eid = Some (Finite x)
           \<and> (\<forall>p. walk rooms p \<and> hd p = sid \<and> last p = eid \<longrightarrow> x \<le> walkLen rnd rooms p)"
proof (cases "findMin d unv = Some eid")
  case True
  note rd = readDistance_plain [of d, OF searchInvD(11) [OF inv]]
  from findMin_Some(2) [OF True] obtain x where x: "d eid = Some (Finite x)"
    by (auto simp: rd)
  from searchInv_min_bound [OF r inv True x] x show ?thesis by blast
next
  case False
  note I = searchInvD [OF inv]
  note rd = readDistance_plain [of d, OF I(11)]
  have inf: "d u \<noteq> Some (Finite y)" if "u \<in> set unv" for u y
  proof (cases "unv = []")
    case True
    with that show ?thesis by simp
  next
    case ne: False
    with exit False have "findMin d unv = None" by simp
    from findMin_None [OF this that, of y] show ?thesis by (simp add: rd)
  qed
  from q(1) have qne: "q \<noteq> []" by (cases q) auto
  have eK: "eid \<in> room_id ` set rooms"
    using walk_nodes [OF q(1), of eid] q(3) last_in_set [OF qne] by (simp add: findRoom_None_iff)
  have "eid \<in> visited rooms unv"
  proof (rule ccontr)
    assume nv: "eid \<notin> visited rooms unv"
    from inf [of sid 0] I(4) have "sid \<notin> set unv" by blast
    with I(2) have sv: "sid \<in> visited rooms unv" by (simp add: visited_def)
    from walk_crossing [OF qne, of "visited rooms unv"] sv nv q(2,3)
    obtain p1 p2 where sp: "q = p1 @ p2" "p1 \<noteq> []" "p2 \<noteq> []"
      and a: "last p1 \<in> visited rooms unv" and b: "hd p2 \<notin> visited rooms unv"
      by auto
    from q(1) walk_append [OF sp(2,3), of rooms] sp(1)
    have e: "edge rooms (last p1) (hd p2)" and w2: "walk rooms p2" by simp_all
    from walk_head_found [OF w2] have "hd p2 \<in> room_id ` set rooms"
      by (simp add: findRoom_None_iff)
    with b have bu: "hd p2 \<in> set unv" by (simp add: visited_def)
    from I(6) [OF a] obtain y where da: "d (last p1) = Some (Finite y)" by blast
    from I(9) [OF a bu e da] obtain z where "d (hd p2) = Some (Finite z)"
      by (auto simp: entryAtMost_def)
    with inf [OF bu, of z] show False by simp
  qed
  with I(6) [OF this] I(8) [OF this] show ?thesis by blast
qed

lemma prev_chain:
  assumes inv: "searchInv rnd rooms sid d prev unv"
    and rank: "\<And>n p. prev n = Some p \<Longrightarrow> (r :: string \<Rightarrow> nat) p < r n"
    and nonempty: "\<And>i. i \<in> room_id ` set rooms \<Longrightarrow> i \<noteq> []"
  shows "d v = Some (Finite x) \<Longrightarrow>
    \<exists>p. walk rooms p \<and> hd p = sid \<and> last p = v \<and> walkLen rnd rooms p = x
      \<and> (\<forall>acc. reconstruct rooms prev (Some v) acc = Some (nodesOf rooms p @ acc))"
proof (induction "r v" arbitrary: v x rule: less_induct)
  case less
  note I = searchInvD [OF inv]
  from I(7) [OF less.prems] show ?case
  proof
    assume s: "v = sid \<and> x = 0 \<and> prev v = None"
    then have pn: "prev sid = None" by (elim conjE) (erule subst)
    from I(2) obtain rs where rs: "findRoom rooms sid = Some rs"
      by (cases "findRoom rooms sid") (auto simp: findRoom_None_iff)
    from nonempty [OF I(2)] have ne: "sid \<noteq> []" .
    have "reconstruct rooms prev (Some v) acc = Some (nodesOf rooms [sid] @ acc)" for acc
      using s rs ne pn by (simp add: reconstruct.simps [of _ _ "Some sid"]
          reconstruct.simps [of _ _ None] nodesOf_def)
    moreover have "walk rooms [sid]" using rs by simp
    ultimately have "walk rooms [sid] \<and> hd [sid] = sid \<and> last [sid] = v \<and> walkLen rnd rooms [sid] = x
      \<and> (\<forall>acc. reconstruct rooms prev (Some v) acc = Some (nodesOf rooms [sid] @ acc))"
      using s by (simp add: walkLen_single)
    then show ?thesis by blast
  next
    assume "\<exists>u y. prev v = Some u \<and> u \<in> visited rooms unv \<and> d u = Some (Finite y)
                  \<and> edge rooms u v \<and> x = rnd (y + weight rnd rooms u v)"
    then obtain u y where u: "prev v = Some u" "d u = Some (Finite y)" "edge rooms u v"
      "x = rnd (y + weight rnd rooms u v)" by blast
    from less.hyps [OF rank [OF u(1)] u(2)] obtain p where p: "walk rooms p" "hd p = sid"
      "last p = u" "walkLen rnd rooms p = y"
      and rec: "\<And>acc. reconstruct rooms prev (Some u) acc = Some (nodesOf rooms p @ acc)"
      by blast
    from edge_found [OF u(3)] obtain rv where rv: "findRoom rooms v = Some rv" by auto
    then have "v \<in> room_id ` set rooms" using findRoom_None_iff [of rooms v] by auto
    from nonempty [OF this] have ne: "v \<noteq> []" .
    from u(3) p(3) have e: "edge rooms (last p) v" by simp
    note sn = walk_snoc [OF p(1) e]
    have "reconstruct rooms prev (Some v) acc = Some (nodesOf rooms (p @ [v]) @ acc)" for acc
      using rv ne u(1) rec [of "rv # acc"]
      by (simp add: reconstruct.simps [of _ _ "Some v"] nodesOf_def)
    with sn p u(4) have "walk rooms (p @ [v]) \<and> hd (p @ [v]) = sid \<and> last (p @ [v]) = v
      \<and> walkLen rnd rooms (p @ [v]) = x
      \<and> (\<forall>acc. reconstruct rooms prev (Some v) acc = Some (nodesOf rooms (p @ [v]) @ acc))"
      by simp
    then show ?thesis by blast
  qed
qed

section \<open>Shortest paths\<close>

lemma findRoom_distinct:
  "distinct (map room_id rooms) \<Longrightarrow> a \<in> set rooms \<Longrightarrow> findRoom rooms (room_id a) = Some a"
proof (induction rooms)
  case Nil
  then show ?case by simp
next
  case (Cons r rooms)
  show ?case
  proof (cases "a = r")
    case True
    then show ?thesis by (simp add: findRoom_def)
  next
    case False
    with Cons.prems have a: "a \<in> set rooms" by simp
    with Cons.prems have "room_id r \<noteq> room_id a" by (auto intro: id_in_ids)
    with Cons.IH a Cons.prems show ?thesis by (simp add: findRoom_def)
  qed
qed

lemma connectionPath_mem: "connectionPath rooms q \<Longrightarrow> a \<in> set q \<Longrightarrow> a \<in> set rooms"
  by (induction q rule: induct_list012) auto

lemma connectionPath_walk:
  assumes dist: "distinct (map room_id rooms)"
  shows "connectionPath rooms q \<Longrightarrow>
    walk rooms (map room_id q)
    \<and> walkLenFrom rnd rooms acc (map room_id q) = pathLengthFrom rnd acc q"
proof (induction q arbitrary: acc rule: induct_list012)
  case 1
  then show ?case by simp
next
  case (2 a)
  then show ?case by (simp add: findRoom_distinct [OF dist])
next
  case (3 a b q)
  from "3.prems" have a: "a \<in> set rooms" and ab: "room_id b \<in> set (connections a)"
    and rest: "connectionPath rooms (b # q)" by simp_all
  from connectionPath_mem [OF rest, of b] have b: "b \<in> set rooms" by simp
  note fa = findRoom_distinct [OF dist a] and fb = findRoom_distinct [OF dist b]
  have "edge rooms (room_id a) (room_id b)" using fa fb ab by (simp add: edge_def)
  moreover have "weight rnd rooms (room_id a) (room_id b) = calculateDistanceR rnd a b"
    using fa fb by (simp add: weight_def)
  ultimately show ?case
    using "3.IH"(2) [OF rest, of "rnd (acc + calculateDistanceR rnd a b)"] by simp
qed

lemma walk_connectionPath:
  "walk rooms p \<Longrightarrow>
   connectionPath rooms (nodesOf rooms p)
   \<and> pathLengthFrom rnd acc (nodesOf rooms p) = walkLenFrom rnd rooms acc p"
proof (induction p arbitrary: acc rule: induct_list012)
  case 1
  then show ?case by simp
next
  case (2 u)
  then obtain ru where "findRoom rooms u = Some ru" by auto
  with findRoom_SomeD [OF this] show ?case by (simp add: nodesOf_def)
next
  case (3 u v p)
  from "3.prems" have e: "edge rooms u v" and rest: "walk rooms (v # p)" by simp_all
  from e obtain ru rv where ru: "findRoom rooms u = Some ru" and rv: "findRoom rooms v = Some rv"
    and c: "v \<in> set (connections ru)"
    by (auto simp: edge_def split: option.splits)
  note du = findRoom_SomeD [OF ru] and dv = findRoom_SomeD [OF rv]
  have w: "weight rnd rooms u v = calculateDistanceR rnd ru rv" using ru rv by (simp add: weight_def)
  from "3.IH"(2) [OF rest, of "rnd (acc + calculateDistanceR rnd ru rv)"] ru rv c du dv w
  show ?case by (simp add: nodesOf_def)
qed

lemma nodesOf_ends:
  "p \<noteq> [] \<Longrightarrow> hd (nodesOf rooms p) = the (findRoom rooms (hd p))
     \<and> last (nodesOf rooms p) = the (findRoom rooms (last p)) \<and> nodesOf rooms p \<noteq> []"
  by (simp add: nodesOf_def hd_map last_map)

lemma searchRooms_present:
  "start \<in> set allRooms \<Longrightarrow> endR \<in> set allRooms \<Longrightarrow> searchRooms start endR allRooms = allRooms"
  by (auto simp: searchRooms_def ensureRoom_def list_ex_iff)

lemma usable_ids:
  assumes "list_all usableId allRooms" and "i \<in> room_id ` set allRooms"
  shows "i \<noteq> []" and "i \<noteq> ''__proto__''"
  using assms by (auto simp: list_all_iff usableId_def)

lemma usable_no_proto: "list_all usableId allRooms \<Longrightarrow> ''__proto__'' \<notin> room_id ` set allRooms"
  using usable_ids(2) [of allRooms "''__proto__''"] by blast

text \<open>
  The state in which the main loop ends on a graph with distinct usable ids, for start
  and destination among its nodes.
\<close>

lemma search_end_state:
  assumes r: "rounding rnd" and dist: "distinct (map room_id allRooms)"
    and us: "list_all usableId allRooms"
    and s: "start \<in> set allRooms" and e: "endR \<in> set allRooms"
    and cs: "connections start \<noteq> []" and ce: "connections endR \<noteq> []"
  obtains d' p' unv' rk where
    "searchInv rnd allRooms (room_id start) d' p' unv'"
    and "\<forall>n q. p' n = Some q \<longrightarrow> (rk :: string \<Rightarrow> nat) q < rk n"
    and "unv' = [] \<or> findMin d' unv' = None \<or> findMin d' unv' = Some (room_id endR)"
    and "\<forall>path. reconstruct allRooms p' (Some (room_id endR)) [] = Some path \<longrightarrow>
           getShortestPathR rnd start endR allRooms =
             (if path = [] \<or> room_id (hd path) \<noteq> room_id start
              then Some (createGridBasedPath start endR allRooms) else Some path)"
proof -
  let ?sid = "room_id start" and ?eid = "room_id endR"
  note sr = searchRooms_present [OF s e]
  have sK: "?sid \<in> room_id ` set allRooms" using s by blast
  obtain d p u where init: "initSearch ?sid allRooms = (d, p, u)"
    by (cases "initSearch ?sid allRooms") auto
  note ip = initSearch_props [OF init]
  from searchInv_init [OF init sK usable_no_proto [OF us]]
  have inv0: "searchInv rnd allRooms ?sid d p u" .
  have rk0: "prevRanked p u" by (simp add: ip(1) prevRanked_empty)
  from dijkstraLoopR_returns [of u allRooms rnd ?eid "(d, p)"] ip(2)
  obtain d' p' where loop: "dijkstraLoopR rnd allRooms ?eid (d, p) u = Some (d', p')" by auto
  from dijkstraLoopR_inv [OF loop r, of ?sid] inv0 rk0
  obtain unv' where inv: "searchInv rnd allRooms ?sid d' p' unv'" and rk: "prevRanked p' unv'"
    and exit: "unv' = [] \<or> findMin d' unv' = None \<or> findMin d' unv' = Some ?eid"
    by auto
  from rk obtain rf :: "string \<Rightarrow> nat" where rf: "\<forall>n q. p' n = Some q \<longrightarrow> rf q < rf n"
    unfolding prevRanked_def by blast
  have "getShortestPathR rnd start endR allRooms =
      (if path = [] \<or> room_id (hd path) \<noteq> ?sid
       then Some (createGridBasedPath start endR allRooms) else Some path)"
    if "reconstruct allRooms p' (Some ?eid) [] = Some path" for path
    unfolding getShortestPathR_def sr Let_def using cs ce that by (simp add: init loop)
  then have gsp: "\<forall>path. reconstruct allRooms p' (Some ?eid) [] = Some path \<longrightarrow>
      getShortestPathR rnd start endR allRooms =
        (if path = [] \<or> room_id (hd path) \<noteq> ?sid
         then Some (createGridBasedPath start endR allRooms) else Some path)"
    by blast
  from inv rf exit gsp show thesis by (rule that)
qed

text \<open>
  When the destination has a finite distance at the end of the search, the result is
  the path the \<open>previous\<close> table describes.
\<close>

lemma search_result_path:
  assumes dist: "distinct (map room_id allRooms)"
    and us: "list_all usableId allRooms"
    and s: "start \<in> set allRooms" and e: "endR \<in> set allRooms"
    and inv: "searchInv rnd allRooms (room_id start) d' p' unv'"
    and rk: "\<forall>n q. p' n = Some q \<longrightarrow> (rk :: string \<Rightarrow> nat) q < rk n"
    and gsp: "\<forall>path. reconstruct allRooms p' (Some (room_id endR)) [] = Some path \<longrightarrow>
           getShortestPathR rnd start endR allRooms =
             (if path = [] \<or> room_id (hd path) \<noteq> room_id start
              then Some (createGridBasedPath start endR allRooms) else Some path)"
    and x: "d' (room_id endR) = Some (Finite x)"
  shows "\<exists>path. getShortestPathR rnd start endR allRooms = Some path
          \<and> connectionPath allRooms path \<and> hd path = start \<and> last path = endR
          \<and> pathLength rnd path = x"
proof -
  let ?sid = "room_id start" and ?eid = "room_id endR"
  note fs = findRoom_distinct [OF dist s] and fe = findRoom_distinct [OF dist e]
  have "\<exists>w. walk allRooms w \<and> hd w = ?sid \<and> last w = ?eid \<and> walkLen rnd allRooms w = x
      \<and> (\<forall>acc. reconstruct allRooms p' (Some ?eid) acc = Some (nodesOf allRooms w @ acc))"
  proof (rule prev_chain [where r = rk and unv = unv'])
    show "searchInv rnd allRooms ?sid d' p' unv'" by (rule inv)
    show "rk q < rk n" if "p' n = Some q" for n q using that rk by blast
    show "i \<noteq> []" if "i \<in> room_id ` set allRooms" for i using us that by (rule usable_ids(1))
    show "d' ?eid = Some (Finite x)" by (rule x)
  qed
  then obtain w where w: "walk allRooms w" "hd w = ?sid"
    "last w = ?eid" "walkLen rnd allRooms w = x"
    and rec: "reconstruct allRooms p' (Some ?eid) [] = Some (nodesOf allRooms w)"
    by (metis append_Nil2)
  from w(1) have wne: "w \<noteq> []" by (cases w) auto
  note ends = nodesOf_ends [OF wne, of allRooms]
  let ?path = "nodesOf allRooms w"
  have hd: "hd ?path = start" and last: "last ?path = endR"
    using ends w(2,3) fs fe by simp_all
  have pne: "?path \<noteq> []" using ends by simp
  have hid: "room_id (hd ?path) = room_id start" by (simp only: hd)
  from gsp rec pne hid have "getShortestPathR rnd start endR allRooms = Some ?path" by simp
  moreover from walk_connectionPath [OF w(1), of rnd 0] w(4)
  have "connectionPath allRooms ?path" and "pathLength rnd ?path = x"
    by (simp_all add: pathLength_def walkLen_def)
  ultimately show ?thesis using hd last by blast
qed

lemma graph_search_optimal:
  assumes r: "rounding rnd" and dist: "distinct (map room_id allRooms)"
    and us: "list_all usableId allRooms"
    and s: "start \<in> set allRooms" and e: "endR \<in> set allRooms"
    and cs: "connections start \<noteq> []" and ce: "connections endR \<noteq> []"
    and q: "connectionPath allRooms q" "hd q = start" "last q = endR"
  shows "\<exists>path. getShortestPathR rnd start endR allRooms = Some path
          \<and> connectionPath allRooms path \<and> hd path = start \<and> last path = endR
          \<and> (\<forall>q'. connectionPath allRooms q' \<and> hd q' = start \<and> last q' = endR
                 \<longrightarrow> pathLength rnd path \<le> pathLength rnd q')"
proof -
  let ?sid = "room_id start" and ?eid = "room_id endR"
  obtain d' p' unv' rk where inv: "searchInv rnd allRooms ?sid d' p' unv'"
    and rk: "\<forall>n q. p' n = Some q \<longrightarrow> (rk :: string \<Rightarrow> nat) q < rk n"
    and exit: "unv' = [] \<or> findMin d' unv' = None \<or> findMin d' unv' = Some ?eid"
    and gsp: "\<forall>path. reconstruct allRooms p' (Some ?eid) [] = Some path \<longrightarrow>
           getShortestPathR rnd start endR allRooms =
             (if path = [] \<or> room_id (hd path) \<noteq> ?sid
              then Some (createGridBasedPath start endR allRooms) else Some path)"
    by (rule search_end_state [OF r dist us s e cs ce]) (rule that)
  from q(1) have qne: "q \<noteq> []" by (cases q) auto
  from connectionPath_walk [OF dist q(1)] have wq: "walk allRooms (map room_id q)" by simp
  have hq: "hd (map room_id q) = ?sid" "last (map room_id q) = ?eid"
    using qne q(2,3) by (simp_all add: hd_map last_map)
  from search_exit_bound [OF r inv exit wq hq] obtain x where x: "d' ?eid = Some (Finite x)"
    and low: "\<And>w. walk allRooms w \<Longrightarrow> hd w = ?sid \<Longrightarrow> last w = ?eid
                 \<Longrightarrow> x \<le> walkLen rnd allRooms w" by blast
  from search_result_path [OF dist us s e inv rk gsp x]
  obtain path where path: "getShortestPathR rnd start endR allRooms = Some path"
    "connectionPath allRooms path" "hd path = start" "last path = endR"
    and len: "pathLength rnd path = x" by blast
  have "pathLength rnd path \<le> pathLength rnd q'"
    if q': "connectionPath allRooms q'" "hd q' = start" "last q' = endR" for q'
  proof -
    from q'(1) have q'ne: "q' \<noteq> []" by (cases q') auto
    from connectionPath_walk [OF dist q'(1), of rnd 0]
    have "walk allRooms (map room_id q')"
      "walkLen rnd allRooms (map room_id q') = pathLength rnd q'"
      by (simp_all add: pathLength_def walkLen_def)
    with low [of "map room_id q'"] q'ne q'(2,3) len show ?thesis
      by (simp add: hd_map last_map)
  qed
  with path show ?thesis by blast
qed

lemma sqrt_2500: "sqrt 2500 = 50"
  by (rule real_sqrt_unique) simp_all

lemma sqrt_900: "sqrt 900 = 30"
  by (rule real_sqrt_unique) simp_all

lemma sqrt_1600: "sqrt 1600 = 40"
  by (rule real_sqrt_unique) simp_all

lemma relaxR_weight:
  assumes "findRoom rooms nb = Some nbr"
    and "fst (relaxR rnd rooms cur cr unv nb dp) nb \<noteq> fst dp nb"
  shows "\<exists>dc. readDistance (fst dp) cur = Some dc
     \<and> fst (relaxR rnd rooms cur cr unv nb dp) nb
         = Some (dist_addR rnd dc (calculateDistanceR rnd cr nbr))"
  using assms
  by (auto simp: relaxR_def Let_def writeDistance_def split: option.splits if_splits)

lemma oneWay_fallback:
  "getShortestPath oneWayB oneWayA [oneWayA, oneWayB]
     = Some [oneWayB, virtualH oneWayB oneWayA,
             virtualV oneWayB oneWayA (virtualH oneWayB oneWayA), oneWayA]"
  by (simp add: getShortestPath_def searchRooms_def ensureRoom_def initSearch_def initStep_def
      set_add_def set_delete_def dijkstraLoop.simps findMin_def minStep_def findRoom_def
      relax_def readDistance_def writeDistance_def reconstruct.simps createGridBasedPath_def
      horizontalLeg_def verticalLeg_def
      waypointsOf_def findWaypointNear_def horizontalObstructed_def verticalObstructed_def
      virtualH_def virtualV_def oneWayA_def oneWayB_def node_def)

lemma emptyId_fallback:
  "getShortestPath emptyIdA emptyIdB [emptyIdA, emptyIdB]
     = Some [emptyIdA, virtualH emptyIdA emptyIdB,
             virtualV emptyIdA emptyIdB (virtualH emptyIdA emptyIdB), emptyIdB]"
  by (simp add: getShortestPath_def searchRooms_def ensureRoom_def initSearch_def initStep_def
      set_add_def set_delete_def dijkstraLoop.simps findMin_def minStep_def findRoom_def
      relax_def readDistance_def writeDistance_def reconstruct.simps createGridBasedPath_def
      horizontalLeg_def verticalLeg_def
      waypointsOf_def findWaypointNear_def horizontalObstructed_def verticalObstructed_def
      virtualH_def virtualV_def emptyIdA_def emptyIdB_def node_def)

lemma protoId_fallback:
  "getShortestPath protoIdA protoIdB [protoIdA, protoIdB]
     = Some [protoIdA, virtualH protoIdA protoIdB,
             virtualV protoIdA protoIdB (virtualH protoIdA protoIdB), protoIdB]"
  by (simp add: getShortestPath_def searchRooms_def ensureRoom_def initSearch_def initStep_def
      set_add_def set_delete_def dijkstraLoop.simps findMin_def minStep_def findRoom_def
      relax_def readDistance_def writeDistance_def reconstruct.simps createGridBasedPath_def
      horizontalLeg_def verticalLeg_def
      waypointsOf_def findWaypointNear_def horizontalObstructed_def verticalObstructed_def
      virtualH_def virtualV_def protoIdA_def protoIdB_def node_def)

lemma pathLength_two: "pathLength (\<lambda>x. x) [a, b] = calculateDistance a b"
  by (simp add: pathLength_def calculateDistanceR_id)

lemma pathLength_four:
  "pathLength (\<lambda>x. x) [a, b, c, d]
     = calculateDistance a b + calculateDistance b c + calculateDistance c d"
  by (simp add: pathLength_def calculateDistanceR_id)

text \<open>
  Claim C2, as the claim states it, is false.  The data model calls a connection an
  undirected edge, so \<open>[b, a]\<close> is a connection path between \<open>b\<close> and \<open>a\<close> when only \<open>a\<close>
  lists \<open>b\<close>; its length is 50, but the search follows connections in their listed
  direction only, finds nothing and falls back to a synthesized path of length 70.
  Two ids defeat the search even with connections listed in both directions.  When
  the start has the empty string as its id, the reconstruction loop
  \<open>while (currentId)\<close> stops before it reaches the start.  When the start has the id
  \<open>__proto__\<close>, the distance table stores nothing for it, the start is never selected
  and the search ends at once.  In both cases the result is the synthesized path of
  length 70 instead of the connection path of length 50.
\<close>

theorem graph_search_shortest_counterexample:
  "connections oneWayB \<noteq> [] \<and> connections oneWayA \<noteq> []
   \<and> undirectedPath [oneWayA, oneWayB] [oneWayB, oneWayA]
   \<and> pathLength (\<lambda>x. x) [oneWayB, oneWayA] = 50
   \<and> getShortestPath oneWayB oneWayA [oneWayA, oneWayB]
       = Some [oneWayB, virtualH oneWayB oneWayA,
               virtualV oneWayB oneWayA (virtualH oneWayB oneWayA), oneWayA]
   \<and> pathLength (\<lambda>x. x) [oneWayB, virtualH oneWayB oneWayA,
                  virtualV oneWayB oneWayA (virtualH oneWayB oneWayA), oneWayA] = 70
   \<and> connections emptyIdA \<noteq> [] \<and> connections emptyIdB \<noteq> []
   \<and> connectionPath [emptyIdA, emptyIdB] [emptyIdA, emptyIdB]
   \<and> pathLength (\<lambda>x. x) [emptyIdA, emptyIdB] = 50
   \<and> getShortestPath emptyIdA emptyIdB [emptyIdA, emptyIdB]
       = Some [emptyIdA, virtualH emptyIdA emptyIdB,
               virtualV emptyIdA emptyIdB (virtualH emptyIdA emptyIdB), emptyIdB]
   \<and> pathLength (\<lambda>x. x) [emptyIdA, virtualH emptyIdA emptyIdB,
                  virtualV emptyIdA emptyIdB (virtualH emptyIdA emptyIdB), emptyIdB] = 70
   \<and> connections protoIdA \<noteq> [] \<and> connections protoIdB \<noteq> []
   \<and> connectionPath [protoIdA, protoIdB] [protoIdA, protoIdB]
   \<and> pathLength (\<lambda>x. x) [protoIdA, protoIdB] = 50
   \<and> getShortestPath protoIdA protoIdB [protoIdA, protoIdB]
       = Some [protoIdA, virtualH protoIdA protoIdB,
               virtualV protoIdA protoIdB (virtualH protoIdA protoIdB), protoIdB]
   \<and> pathLength (\<lambda>x. x) [protoIdA, virtualH protoIdA protoIdB,
                  virtualV protoIdA protoIdB (virtualH protoIdA protoIdB), protoIdB] = 70"
  by (simp add: oneWay_fallback emptyId_fallback protoId_fallback pathLength_two
      pathLength_four)
     (simp add: calculateDistance_def virtualH_def virtualV_def oneWayA_def oneWayB_def
      emptyIdA_def emptyIdB_def protoIdA_def protoIdB_def node_def
      sqrt_2500 sqrt_900 sqrt_1600)

text \<open>
  Claim C2, amended.  Take the arithmetic of the search with any rounding \<open>rnd\<close> that is
  monotone, idempotent and keeps 0 (the identity gives exact arithmetic), and the
  length of a path as the search accumulates it: from the start, edge by edge, each sum
  rounded.  For every graph with distinct ids, none of them empty or \<open>__proto__\<close>, in
  which start and destination are nodes with at least one connection each and a
  connection path leads from start to destination in the listed direction of the
  connections (each node lists the id of its successor), \<open>getShortestPath\<close> returns such
  a connection path from start to destination whose length is at most that of every
  such connection path, hence the minimum.  Every value that relaxation writes into
  the distance table is the distance of the current room plus the Euclidean distance
  between the positions of the current room and the neighbour.
\<close>

theorem graph_search_shortest:
  assumes "rounding rnd"
    and "distinct (map room_id allRooms)"
    and "list_all usableId allRooms"
    and "start \<in> set allRooms" and "endR \<in> set allRooms"
    and "connections start \<noteq> []" and "connections endR \<noteq> []"
    and "connectionPath allRooms q" and "hd q = start" and "last q = endR"
  shows "(\<exists>path. getShortestPathR rnd start endR allRooms = Some path
            \<and> connectionPath allRooms path \<and> hd path = start \<and> last path = endR
            \<and> (\<forall>q'. connectionPath allRooms q' \<and> hd q' = start \<and> last q' = endR
                   \<longrightarrow> pathLength rnd path \<le> pathLength rnd q'))
       \<and> (\<forall>cur cr unv nb dp nbr.
             findRoom allRooms nb = Some nbr
             \<and> fst (relaxR rnd allRooms cur cr unv nb dp) nb \<noteq> fst dp nb
             \<longrightarrow> (\<exists>dc. readDistance (fst dp) cur = Some dc
                   \<and> fst (relaxR rnd allRooms cur cr unv nb dp) nb
                       = Some (dist_addR rnd dc (calculateDistanceR rnd cr nbr))))"
proof -
  from graph_search_optimal [OF assms]
  have "\<exists>path. getShortestPathR rnd start endR allRooms = Some path
            \<and> connectionPath allRooms path \<and> hd path = start \<and> last path = endR
            \<and> (\<forall>q'. connectionPath allRooms q' \<and> hd q' = start \<and> last q' = endR
                   \<longrightarrow> pathLength rnd path \<le> pathLength rnd q')" .
  moreover have "\<exists>dc. readDistance (fst dp) cur = Some dc
                   \<and> fst (relaxR rnd allRooms cur cr unv nb dp) nb
                       = Some (dist_addR rnd dc (calculateDistanceR rnd cr nbr))"
    if "findRoom allRooms nb = Some nbr"
      "fst (relaxR rnd allRooms cur cr unv nb dp) nb \<noteq> fst dp nb"
    for cur cr unv nb dp nbr
    using relaxR_weight [OF that] .
  ultimately show ?thesis by blast
qed

theorem graph_search_shortest_witness:
  "rounding (\<lambda>x. x)
   \<and> connectionPath [detourA, detourB, detourC] [detourA, detourC]
   \<and> connectionPath [detourA, detourB, detourC] [detourA, detourB, detourC]
   \<and> (\<exists>path. getShortestPath detourA detourC [detourA, detourB, detourC] = Some path
         \<and> connectionPath [detourA, detourB, detourC] path
         \<and> hd path = detourA \<and> last path = detourC
         \<and> pathLength (\<lambda>x. x) path \<le> pathLength (\<lambda>x. x) [detourA, detourC]
         \<and> pathLength (\<lambda>x. x) path \<le> pathLength (\<lambda>x. x) [detourA, detourB, detourC])
   \<and> fst (relax [detourA, detourB, detourC] ''a'' detourA [''b'', ''c''] ''c''
             ([''a'' \<mapsto> Finite 0, ''b'' \<mapsto> Infinity, ''c'' \<mapsto> Infinity], Map.empty)) ''c''
       = Some (Finite 50)"
proof -
  let ?g = "[detourA, detourB, detourC]"
  let ?dp = "([''a'' \<mapsto> Finite 0, ''b'' \<mapsto> Infinity, ''c'' \<mapsto> Infinity],
              Map.empty :: previous)"
  have h1: "distinct (map room_id ?g)"
    by (simp add: detourA_def detourB_def detourC_def node_def)
  have h2: "list_all usableId ?g"
    by (simp add: usableId_def detourA_def detourB_def detourC_def node_def)
  have h3: "detourA \<in> set ?g" and h4: "detourC \<in> set ?g" by simp_all
  have h5: "connections detourA \<noteq> []" and h6: "connections detourC \<noteq> []"
    by (simp_all add: detourA_def detourC_def node_def)
  have h7: "connectionPath ?g [detourA, detourC]"
    by (simp add: detourA_def detourC_def node_def)
  have h7': "connectionPath ?g [detourA, detourB, detourC]"
    by (simp add: detourA_def detourB_def detourC_def node_def)
  have h8: "hd [detourA, detourC] = detourA" and h9: "last [detourA, detourC] = detourC"
    by simp_all
  have h8': "hd [detourA, detourB, detourC] = detourA"
    and h9': "last [detourA, detourB, detourC] = detourC" by simp_all
  note main = graph_search_shortest [OF rounding_id h1 h2 h3 h4 h5 h6 h7 h8 h9]
  from main
  obtain path where path: "getShortestPathR (\<lambda>x. x) detourA detourC ?g = Some path"
    "connectionPath ?g path" "hd path = detourA" "last path = detourC"
    and low: "\<And>q'. connectionPath ?g q' \<Longrightarrow> hd q' = detourA \<Longrightarrow> last q' = detourC
                \<Longrightarrow> pathLength (\<lambda>x. x) path \<le> pathLength (\<lambda>x. x) q'"
    by blast
  from low [OF h7 h8 h9] low [OF h7' h8' h9']
  have len: "pathLength (\<lambda>x. x) path \<le> pathLength (\<lambda>x. x) [detourA, detourC]"
    "pathLength (\<lambda>x. x) path \<le> pathLength (\<lambda>x. x) [detourA, detourB, detourC]" .
  have found: "findRoom ?g ''c'' = Some detourC"
    by (simp add: findRoom_def detourA_def detourB_def detourC_def node_def)
  have changed: "fst (relaxR (\<lambda>x. x) ?g ''a'' detourA [''b'', ''c''] ''c'' ?dp) ''c''
      \<noteq> fst ?dp ''c''"
    by (simp add: relaxR_def found readDistance_def writeDistance_def)
  from main found changed
  obtain dc where dc: "readDistance (fst ?dp) ''a'' = Some dc"
    and written: "fst (relaxR (\<lambda>x. x) ?g ''a'' detourA [''b'', ''c''] ''c'' ?dp) ''c''
      = Some (dist_addR (\<lambda>x. x) dc (calculateDistanceR (\<lambda>x. x) detourA detourC))"
    by blast
  from dc have "dc = Finite 0" by (simp add: readDistance_def)
  with written have "fst (relax ?g ''a'' detourA [''b'', ''c''] ''c'' ?dp) ''c'' = Some (Finite 50)"
    by (simp add: relaxR_id calculateDistanceR_id calculateDistance_def
        detourA_def detourC_def node_def sqrt_2500)
  with path len h7 h7' rounding_id show ?thesis
    by (simp only: getShortestPathR_id) blast
qed

section \<open>Direction of the connections\<close>

lemma graph_branch_directed:
  assumes r: "rounding rnd" and dist: "distinct (map room_id allRooms)"
    and us: "list_all usableId allRooms"
    and s: "start \<in> set allRooms" and e: "endR \<in> set allRooms"
    and cs: "connections start \<noteq> []" and ce: "connections endR \<noteq> []"
  shows "\<exists>path. getShortestPathR rnd start endR allRooms = Some path
          \<and> (path = createGridBasedPath start endR allRooms
              \<or> (connectionPath allRooms path \<and> hd path = start \<and> last path = endR))"
proof -
  let ?sid = "room_id start" and ?eid = "room_id endR"
  note fs = findRoom_distinct [OF dist s] and fe = findRoom_distinct [OF dist e]
  have eK: "?eid \<in> room_id ` set allRooms" using e by blast
  obtain d' p' unv' rk where inv: "searchInv rnd allRooms ?sid d' p' unv'"
    and rk: "\<forall>n q. p' n = Some q \<longrightarrow> (rk :: string \<Rightarrow> nat) q < rk n"
    and gsp: "\<forall>path. reconstruct allRooms p' (Some ?eid) [] = Some path \<longrightarrow>
           getShortestPathR rnd start endR allRooms =
             (if path = [] \<or> room_id (hd path) \<noteq> ?sid
              then Some (createGridBasedPath start endR allRooms) else Some path)"
    by (rule search_end_state [OF r dist us s e cs ce]) (rule that)
  note I = searchInvD [OF inv]
  show ?thesis
  proof (cases "\<exists>x. d' ?eid = Some (Finite x)")
    case True
    then obtain x where x: "d' ?eid = Some (Finite x)" by blast
    from search_result_path [OF dist us s e inv rk gsp x] show ?thesis by blast
  next
    case False
    with I(10) [of ?eid] have pn: "p' ?eid = None" by (cases "p' ?eid") auto
    have rec: "reconstruct allRooms p' (Some ?eid) [] = Some [endR]"
      using usable_ids(1) [OF us eK] fe pn
      by (simp add: reconstruct.simps [of _ _ "Some ?eid"] reconstruct.simps [of _ _ None])
    show ?thesis
    proof (cases "?eid = ?sid")
      case True
      with fs fe have "endR = start" by simp
      with gsp rec e show ?thesis by simp
    next
      case False
      with gsp rec show ?thesis by simp
    qed
  qed
qed

text \<open>
  Claim C8, as the claim states it, is false: \<open>a\<close> lists \<open>b\<close>, yet from \<open>b\<close> the search does
  not reach \<open>a\<close> and the result is the synthesized path, while on the symmetrized graph
  the result is the direct path from \<open>b\<close> to \<open>a\<close>.
\<close>

theorem undirected_edge_counterexample:
  "room_id oneWayB \<in> set (connections oneWayA)
   \<and> getShortestPath oneWayB oneWayA [oneWayA, oneWayB]
       = Some [oneWayB, virtualH oneWayB oneWayA,
               virtualV oneWayB oneWayA (virtualH oneWayB oneWayA), oneWayA]
   \<and> getShortestPath (symmetrizeRoom [oneWayA, oneWayB] oneWayB)
        (symmetrizeRoom [oneWayA, oneWayB] oneWayA) (symmetrize [oneWayA, oneWayB])
       = Some [symmetrizeRoom [oneWayA, oneWayB] oneWayB,
               symmetrizeRoom [oneWayA, oneWayB] oneWayA]
   \<and> map room_id [oneWayB, virtualH oneWayB oneWayA,
                   virtualV oneWayB oneWayA (virtualH oneWayB oneWayA), oneWayA]
       \<noteq> map room_id [symmetrizeRoom [oneWayA, oneWayB] oneWayB,
                       symmetrizeRoom [oneWayA, oneWayB] oneWayA]"
proof -
  have a: "symmetrizeRoom [oneWayA, oneWayB] oneWayA = oneWayA"
    by (simp add: symmetrizeRoom_def backLinks_def oneWayA_def oneWayB_def node_def)
  have b: "symmetrizeRoom [oneWayA, oneWayB] oneWayB = node ''b'' 30 40 [''x'', ''a''] TRoom"
    by (simp add: symmetrizeRoom_def backLinks_def oneWayA_def oneWayB_def node_def)
  have "getShortestPath (node ''b'' 30 40 [''x'', ''a''] TRoom) oneWayA
          [oneWayA, node ''b'' 30 40 [''x'', ''a''] TRoom]
        = Some [node ''b'' 30 40 [''x'', ''a''] TRoom, oneWayA]"
    by (simp add: getShortestPath_def searchRooms_def ensureRoom_def initSearch_def initStep_def
      set_add_def set_delete_def dijkstraLoop.simps findMin_def minStep_def findRoom_def
      relax_def readDistance_def writeDistance_def reconstruct.simps oneWayA_def node_def)
  then have "getShortestPath (symmetrizeRoom [oneWayA, oneWayB] oneWayB)
        (symmetrizeRoom [oneWayA, oneWayB] oneWayA) (symmetrize [oneWayA, oneWayB])
       = Some [symmetrizeRoom [oneWayA, oneWayB] oneWayB,
               symmetrizeRoom [oneWayA, oneWayB] oneWayA]"
    by (simp add: symmetrize_def a b)
  moreover have "room_id oneWayB \<in> set (connections oneWayA)"
    by (simp add: oneWayA_def oneWayB_def node_def)
  ultimately show ?thesis by (simp add: oneWay_fallback)
qed

text \<open>
  Claim C8, amended.  A connection is traversable from the node that lists it, and the
  graph search traverses it from that node only.  Take the arithmetic of the search
  with any rounding \<open>rnd\<close> that is monotone, idempotent and keeps 0, and a graph with
  distinct ids, none of them empty or \<open>__proto__\<close>, with start and destination among its
  nodes with at least one connection each.  When the start lists the id of the
  destination, \<open>getShortestPath\<close> returns a path from start to destination in which
  every node lists the id of its successor, and that path is no longer than the listed
  connection itself.  In every case the result is either the synthesized fallback path
  or a path from start to destination in which every node lists the id of its
  successor: a connection is never taken from the node that is listed.
\<close>

theorem directed_edge_interpretation:
  assumes "rounding rnd"
    and "distinct (map room_id allRooms)"
    and "list_all usableId allRooms"
    and "start \<in> set allRooms" and "endR \<in> set allRooms"
    and "connections start \<noteq> []" and "connections endR \<noteq> []"
  shows "(room_id endR \<in> set (connections start) \<longrightarrow>
            (\<exists>path. getShortestPathR rnd start endR allRooms = Some path
               \<and> connectionPath allRooms path \<and> hd path = start \<and> last path = endR
               \<and> pathLength rnd path \<le> pathLength rnd [start, endR]))
       \<and> (\<exists>path. getShortestPathR rnd start endR allRooms = Some path
            \<and> (path = createGridBasedPath start endR allRooms
                \<or> (connectionPath allRooms path \<and> hd path = start \<and> last path = endR)))"
proof -
  have "\<exists>path. getShortestPathR rnd start endR allRooms = Some path
               \<and> connectionPath allRooms path \<and> hd path = start \<and> last path = endR
               \<and> pathLength rnd path \<le> pathLength rnd [start, endR]"
    if listed: "room_id endR \<in> set (connections start)"
  proof -
    from listed assms(4,5) have q: "connectionPath allRooms [start, endR]" by simp
    have h: "hd [start, endR] = start" and l: "last [start, endR] = endR" by simp_all
    from graph_search_optimal [OF assms q h l]
    obtain path where path: "getShortestPathR rnd start endR allRooms = Some path"
      "connectionPath allRooms path" "hd path = start" "last path = endR"
      and low: "\<And>q'. connectionPath allRooms q' \<Longrightarrow> hd q' = start \<Longrightarrow> last q' = endR
                \<Longrightarrow> pathLength rnd path \<le> pathLength rnd q'"
      by blast
    from low [OF q h l] path show ?thesis by blast
  qed
  moreover note graph_branch_directed [OF assms]
  ultimately show ?thesis by blast
qed

theorem directed_edge_interpretation_witness:
  "rounding (\<lambda>x. x)
   \<and> room_id oneWayB \<in> set (connections oneWayA)
   \<and> room_id oneWayA \<notin> set (connections oneWayB)
   \<and> (\<exists>path. getShortestPath oneWayA oneWayB [oneWayA, oneWayB] = Some path
        \<and> connectionPath [oneWayA, oneWayB] path \<and> hd path = oneWayA \<and> last path = oneWayB
        \<and> pathLength (\<lambda>x. x) path \<le> pathLength (\<lambda>x. x) [oneWayA, oneWayB])"
proof -
  have h1: "distinct (map room_id [oneWayA, oneWayB])"
    by (simp add: oneWayA_def oneWayB_def node_def)
  have h2: "list_all usableId [oneWayA, oneWayB]"
    by (simp add: usableId_def oneWayA_def oneWayB_def node_def)
  have h3: "oneWayA \<in> set [oneWayA, oneWayB]" and h4: "oneWayB \<in> set [oneWayA, oneWayB]"
    by simp_all
  have h5: "connections oneWayA \<noteq> []" and h6: "connections oneWayB \<noteq> []"
    by (simp_all add: oneWayA_def oneWayB_def node_def)
  have listed: "room_id oneWayB \<in> set (connections oneWayA)"
    and unlisted: "room_id oneWayA \<notin> set (connections oneWayB)"
    by (simp_all add: oneWayA_def oneWayB_def node_def)
  from directed_edge_interpretation [OF rounding_id h1 h2 h3 h4 h5 h6] listed
  have "\<exists>path. getShortestPathR (\<lambda>x. x) oneWayA oneWayB [oneWayA, oneWayB] = Some path
        \<and> connectionPath [oneWayA, oneWayB] path \<and> hd path = oneWayA \<and> last path = oneWayB
        \<and> pathLength (\<lambda>x. x) path \<le> pathLength (\<lambda>x. x) [oneWayA, oneWayB]"
    by blast
  with listed unlisted rounding_id show ?thesis by (simp only: getShortestPathR_id) simp
qed

end
